theory Spec2Isabelle
  imports Main "HOL-Library.Multiset" "HOL-Library.Extended_Nat"
begin

section \<open>Elevator System: data model\<close>

text \<open>
  The embedding follows \<^verbatim>\<open>src/Elevator System/index.js\<close>. Floors, identifiers,
  capacities and passenger counts are JavaScript numbers, that is, IEEE doubles; the
  specification takes them as integers, and they are modelled as \<^typ>\<open>int\<close>. Where
  the program computes with floors (the unit step of the motion, the distance the
  controller compares) the result is rounded as double arithmetic rounds it. Every
  integer up to \<open>2 ^ 53\<close> in magnitude is a double; a larger integer that is no double
  cannot occur as a floor, and what is proved for it is not needed.
\<close>

subsection \<open>Integer arithmetic on doubles\<close>

text \<open>The number of binary digits of a positive integer.\<close>

function bit_length :: "int \<Rightarrow> nat" where
  "bit_length n = (if n \<le> 0 then 0 else Suc (bit_length (n div 2)))"
  by pat_completeness auto
termination
  by (relation "measure nat") auto

declare bit_length.simps [simp del]

text \<open>
  The double nearest to an integer, ties to the even significand: a double keeps the 53
  leading binary digits, so an integer with \<open>53 + k\<close> digits is rounded to a multiple of
  \<open>2 ^ k\<close>. Integers up to \<open>2 ^ 53\<close> in magnitude are doubles themselves. The result is
  the value of the double while it is below \<open>2 ^ 1024\<close> in magnitude; from there on the
  double is infinite.
\<close>

definition fl :: "int \<Rightarrow> int" where
  "fl n =
     (let a = \<bar>n\<bar>;
          q = 2 ^ (bit_length a - 53);
          m = a div q;
          r = a mod q;
          m' = (if 2 * r > q \<or> (2 * r = q \<and> odd m) then m + 1 else m)
      in sgn n * (m' * q))"

text \<open>
  \<^verbatim>\<open>Math.abs(a - b)\<close> on doubles, as line 136 computes it: a natural number or
  \<^verbatim>\<open>Infinity\<close>.
\<close>

definition js_distance :: "int \<Rightarrow> int \<Rightarrow> enat" where
  "js_distance a b =
     (let d = fl \<bar>a - b\<bar> in if d < 2 ^ 1024 then enat (nat d) else \<infinity>)"

text \<open>The floors on which adding and subtracting one is exact.\<close>

definition safe_floor :: "int \<Rightarrow> bool" where
  "safe_floor x = (\<bar>x\<bar> \<le> 2 ^ 53)"

datatype Direction = UP | DOWN | IDLE

record Request =
  sourceFloor :: int
  destinationFloor :: int
  direction :: Direction

text \<open>The constructor of class \<^verbatim>\<open>Request\<close> (lines 8 to 13).\<close>

definition new_Request :: "int \<Rightarrow> int \<Rightarrow> Request" where
  "new_Request src dst =
     \<lparr> sourceFloor = src,
       destinationFloor = dst,
       direction = (if dst > src then UP else DOWN) \<rparr>"

text \<open>
  Lines written with \<^verbatim>\<open>console.log\<close>. Every line of an elevator carries the elevator's id
  and the floors it prints.
\<close>

datatype Event =
    AtCapacity int              \<comment> \<open>\<^verbatim>\<open>Elevator i is at capacity.\<close>\<close>
  | PickedUp int int            \<comment> \<open>\<^verbatim>\<open>Elevator i picked up passenger at floor f\<close>\<close>
  | DroppedOff int int          \<comment> \<open>\<^verbatim>\<open>Elevator i dropped off passenger at floor f\<close>\<close>
  | Moving int int int          \<comment> \<open>\<^verbatim>\<open>Elevator i moving from floor f to floor g\<close>\<close>
  | Arrived int int             \<comment> \<open>\<^verbatim>\<open>Elevator i arrived at floor f\<close>\<close>
  | NoAvailable                 \<comment> \<open>\<^verbatim>\<open>No available elevators to handle the request.\<close>\<close>

text \<open>
  \<^verbatim>\<open>processRequests\<close> is an \<^verbatim>\<open>async\<close> function that nobody awaits: it runs until its
  next \<^verbatim>\<open>await\<close> and leaves a continuation behind. \<open>Pending\<close> names the \<^verbatim>\<open>await\<close> at which
  that continuation is parked, with the local variable \<^verbatim>\<open>request\<close> it has captured:
  the timer inside \<^verbatim>\<open>moveToFloor(request.sourceFloor)\<close> (line 100, entered from line 70),
  the \<^verbatim>\<open>await\<close> of line 70 once that call has returned, the timer inside
  \<^verbatim>\<open>moveToFloor(request.destinationFloor)\<close> (line 100, entered from line 78), and the
  \<^verbatim>\<open>await\<close> of line 78 once that call has returned.
\<close>

datatype Pending =
    NoTask
  | SourceTimer Request
  | SourceArrived Request
  | DestTimer Request
  | DestArrived Request

text \<open>
  The fields of class \<^verbatim>\<open>Elevator\<close> (\<^verbatim>\<open>id\<close> is written \<open>ident\<close>), followed by two components
  that are not fields of the JavaScript object: the console lines this elevator has
  written, and the parked continuation of its \<^verbatim>\<open>processRequests\<close> call.
\<close>

record Elevator =
  ident :: int
  capacityLimit :: int
  currentFloor :: int
  direction :: Direction
  requests :: "Request list"
  passengers :: int
  isMoving :: bool
  mutex :: bool
  console :: "Event list"
  pending :: Pending

text \<open>The constructor of class \<^verbatim>\<open>Elevator\<close> (lines 17 to 26).\<close>

definition new_Elevator :: "int \<Rightarrow> int \<Rightarrow> Elevator" where
  "new_Elevator i cap =
     \<lparr> ident = i, capacityLimit = cap, currentFloor = 0, direction = IDLE,
       requests = [], passengers = 0, isMoving = False, mutex = False,
       console = [], pending = NoTask \<rparr>"

section \<open>Queue reordering\<close>

text \<open>
  \<^verbatim>\<open>Array.prototype.sort\<close> with a comparator: a stable sort, where a comparator result
  that is negative or zero keeps \<open>a\<close> before \<open>b\<close>. For a consistent comparator the result
  is determined by stability, and it is computed here by stable insertion.
\<close>

fun insert_cmp :: "('a \<Rightarrow> 'a \<Rightarrow> int) \<Rightarrow> 'a \<Rightarrow> 'a list \<Rightarrow> 'a list" where
  "insert_cmp cmp a [] = [a]"
| "insert_cmp cmp a (b # bs) =
     (if cmp a b \<le> 0 then a # b # bs else b # insert_cmp cmp a bs)"

definition array_sort :: "('a \<Rightarrow> 'a \<Rightarrow> int) \<Rightarrow> 'a list \<Rightarrow> 'a list" where
  "array_sort cmp xs = foldr (insert_cmp cmp) xs []"

text \<open>
  \<^verbatim>\<open>optimizeRequests\<close> (lines 51 to 62). The idle branch calls the method again after
  adopting the direction of the head request; a head request whose own direction is
  \<open>IDLE\<close> (nothing the constructor builds) makes that recursion endless, which is the
  value \<open>None\<close>.
\<close>

partial_function (option) optimizeRequests :: "Elevator \<Rightarrow> Elevator option" where
  "optimizeRequests e =
     (if Elevator.direction e = UP then
        Some (e\<lparr>requests :=
          array_sort (\<lambda>a b. destinationFloor a - destinationFloor b) (requests e)\<rparr>)
      else if Elevator.direction e = DOWN then
        Some (e\<lparr>requests :=
          array_sort (\<lambda>a b. destinationFloor b - destinationFloor a) (requests e)\<rparr>)
      else if length (requests e) > 0 then
        optimizeRequests (e\<lparr>Elevator.direction := Request.direction (hd (requests e))\<rparr>)
      else Some e)"

declare optimizeRequests.simps [code]

section \<open>Floor-by-floor motion\<close>

text \<open>
  One pass through the body of the loop of \<^verbatim>\<open>moveToFloor\<close> after its timer has fired
  (lines 102 to 108): \<^verbatim>\<open>currentFloor += 1\<close> when the target is above,
  \<^verbatim>\<open>currentFloor -= 1\<close> otherwise, both in double arithmetic, and the arrival line.
  Adding or subtracting one never takes a double to infinity.
\<close>

definition unit_step :: "int \<Rightarrow> Elevator \<Rightarrow> Elevator" where
  "unit_step target e =
     (let e' = (if currentFloor e < target
                then e\<lparr>currentFloor := fl (currentFloor e + 1)\<rparr>
                else e\<lparr>currentFloor := fl (currentFloor e - 1)\<rparr>)
      in e'\<lparr>console := console e' @ [Arrived (ident e') (currentFloor e')]\<rparr>)"

text \<open>
  The \<^verbatim>\<open>while\<close> loop of \<^verbatim>\<open>moveToFloor\<close> (lines 99 to 109), run to its end. Where a
  unit step no longer changes the floor the loop never ends, which is the value \<open>None\<close>.
\<close>

partial_function (option) move_loop :: "int \<Rightarrow> Elevator \<Rightarrow> Elevator option" where
  "move_loop target e =
     (if currentFloor e \<noteq> target then move_loop target (unit_step target e) else Some e)"

declare move_loop.simps [code]

text \<open>\<^verbatim>\<open>moveToFloor\<close> (lines 94 to 110), run to its end: the departure line, then the loop.\<close>

definition moveToFloor :: "int \<Rightarrow> Elevator \<Rightarrow> Elevator option" where
  "moveToFloor target e =
     move_loop target
       (e\<lparr>console := console e @ [Moving (ident e) (currentFloor e) target]\<rparr>)"

section \<open>The drain process, one resumption at a time\<close>

text \<open>
  A call of \<^verbatim>\<open>moveToFloor\<close> up to its first \<^verbatim>\<open>await\<close>: it writes the departure line and
  either parks at the timer (\<open>at_timer\<close>) or, with no floor to travel, returns, which
  leaves the caller parked at its own \<^verbatim>\<open>await\<close> (\<open>at_return\<close>).
\<close>

definition call_moveToFloor :: "int \<Rightarrow> Pending \<Rightarrow> Pending \<Rightarrow> Elevator \<Rightarrow> Elevator" where
  "call_moveToFloor target at_timer at_return e =
     (let e' = e\<lparr>console := console e @ [Moving (ident e) (currentFloor e) target]\<rparr>
      in if currentFloor e' \<noteq> target then e'\<lparr>pending := at_timer\<rparr>
         else e'\<lparr>pending := at_return\<rparr>)"

text \<open>The timer of line 100 fires: one unit step, then the loop test of line 99.\<close>

definition timer_fired :: "int \<Rightarrow> Pending \<Rightarrow> Pending \<Rightarrow> Elevator \<Rightarrow> Elevator" where
  "timer_fired target at_timer at_return e =
     (let e' = unit_step target e
      in if currentFloor e' \<noteq> target then e'\<lparr>pending := at_timer\<rparr>
         else e'\<lparr>pending := at_return\<rparr>)"

text \<open>Lines 73 to 78: the pickup, then the call that travels to the destination.\<close>

definition pickup :: "Request \<Rightarrow> Elevator \<Rightarrow> Elevator" where
  "pickup request e =
     (let e1 = e\<lparr>passengers := passengers e + 1\<rparr>;
          e2 = e1\<lparr>console := console e1 @ [PickedUp (ident e1) (currentFloor e1)]\<rparr>
      in call_moveToFloor (destinationFloor request)
           (DestTimer request) (DestArrived request) e2)"

text \<open>
  Lines 66 to 71 and 91: the loop test of \<^verbatim>\<open>processRequests\<close>, the removal of the head
  request and the travel to its source floor when the elevator is elsewhere.
\<close>

definition loop_head :: "Elevator \<Rightarrow> Elevator" where
  "loop_head e =
     (if length (requests e) > 0 then
        (let request = hd (requests e);
             e1 = e\<lparr>requests := tl (requests e)\<rparr>
         in if currentFloor e1 \<noteq> sourceFloor request
            then call_moveToFloor (sourceFloor request)
                   (SourceTimer request) (SourceArrived request) e1
            else pickup request e1)
      else e\<lparr>isMoving := False, pending := NoTask\<rparr>)"

text \<open>Lines 80 to 89, then back to the loop test: the drop-off and the new direction.\<close>

definition dropoff :: "Elevator \<Rightarrow> Elevator" where
  "dropoff e =
     (let e1 = e\<lparr>passengers := passengers e - 1\<rparr>;
          e2 = e1\<lparr>console := console e1 @ [DroppedOff (ident e1) (currentFloor e1)]\<rparr>;
          e3 = (if length (requests e2) = 0
                then e2\<lparr>Elevator.direction := IDLE\<rparr>
                else e2\<lparr>Elevator.direction := Request.direction (hd (requests e2))\<rparr>)
      in loop_head e3)"

text \<open>
  \<^verbatim>\<open>processRequests\<close> (lines 64 to 92) from its call to its first \<^verbatim>\<open>await\<close>. It is
  called by \<^verbatim>\<open>addRequest\<close> only, and only while no earlier call is parked.
\<close>

definition processRequests :: "Elevator \<Rightarrow> Elevator" where
  "processRequests e = loop_head (e\<lparr>isMoving := True\<rparr>)"

text \<open>
  The parked continuation runs until the next \<^verbatim>\<open>await\<close>, or to the end of
  \<^verbatim>\<open>processRequests\<close>. With nothing parked, nothing happens.
\<close>

definition resume :: "Elevator \<Rightarrow> Elevator" where
  "resume e =
     (case pending e of
        NoTask \<Rightarrow> e
      | SourceTimer request \<Rightarrow>
          timer_fired (sourceFloor request) (SourceTimer request) (SourceArrived request) e
      | SourceArrived request \<Rightarrow> pickup request e
      | DestTimer request \<Rightarrow>
          timer_fired (destinationFloor request) (DestTimer request) (DestArrived request) e
      | DestArrived request \<Rightarrow> dropoff e)"

section \<open>Accepting a request\<close>

text \<open>
  The polling loop of lines 29 to 31. Nothing inside the loop releases the flag, so a
  call that finds it set waits for as long as it stays set.
\<close>

partial_function (option) await_mutex :: "Elevator \<Rightarrow> Elevator option" where
  "await_mutex e = (if mutex e then await_mutex e else Some e)"

declare await_mutex.simps [code]

text \<open>
  \<^verbatim>\<open>addRequest\<close> (lines 28 to 49). The result is the returned boolean and the elevator
  after the call; \<open>None\<close> is a call that never returns.
\<close>

definition addRequest :: "Request \<Rightarrow> Elevator \<Rightarrow> (bool \<times> Elevator) option" where
  "addRequest request e =
     (case await_mutex e of
        None \<Rightarrow> None
      | Some e0 \<Rightarrow>
          (let e1 = e0\<lparr>mutex := True\<rparr>
           in if passengers e1 \<ge> capacityLimit e1 then
                (let e2 = e1\<lparr>console := console e1 @ [AtCapacity (ident e1)]\<rparr>
                 in Some (False, e2\<lparr>mutex := False\<rparr>))
              else
                (case optimizeRequests (e1\<lparr>requests := requests e1 @ [request]\<rparr>) of
                   None \<Rightarrow> None
                 | Some e2 \<Rightarrow>
                     (let e3 = (if \<not> isMoving e2 then processRequests e2 else e2)
                      in Some (True, e3\<lparr>mutex := False\<rparr>)))))"

section \<open>The controller\<close>

text \<open>
  Class \<^verbatim>\<open>ElevatorController\<close>: the array of elevators, and the console lines the
  controller itself has written.
\<close>

record ElevatorController =
  elevators :: "Elevator list"
  controller_console :: "Event list"

text \<open>
  The loop of \<^verbatim>\<open>findOptimalElevator\<close> (lines 131 to 142). The elevator object held in
  \<^verbatim>\<open>optimalElevator\<close> is named by its position in the array and \<^verbatim>\<open>null\<close> is \<open>None\<close>.
\<close>

fun find_loop ::
  "Elevator list \<Rightarrow> Request \<Rightarrow> nat \<Rightarrow> nat option \<Rightarrow> enat \<Rightarrow> nat option" where
  "find_loop [] request i optimalElevator minDistance = optimalElevator"
| "find_loop (elevator # rest) request i optimalElevator minDistance =
     (if passengers elevator \<ge> capacityLimit elevator then
        find_loop rest request (Suc i) optimalElevator minDistance
      else
        (let distance = js_distance (currentFloor elevator) (sourceFloor request)
         in if distance < minDistance then
              find_loop rest request (Suc i) (Some i) distance
            else find_loop rest request (Suc i) optimalElevator minDistance))"

definition findOptimalElevator :: "Elevator list \<Rightarrow> Request \<Rightarrow> nat option" where
  "findOptimalElevator es request = find_loop es request 0 None \<infinity>"

text \<open>
  \<^verbatim>\<open>handleRequest\<close> (lines 118 to 125). The boolean that \<^verbatim>\<open>addRequest\<close> returns is
  dropped, as the caller drops the promise; \<open>None\<close> is a forwarded call that never
  completes.
\<close>

definition handleRequest ::
  "Request \<Rightarrow> ElevatorController \<Rightarrow> ElevatorController option" where
  "handleRequest request c =
     (case findOptimalElevator (elevators c) request of
        Some i \<Rightarrow>
          (case addRequest request (elevators c ! i) of
             None \<Rightarrow> None
           | Some (accepted, e') \<Rightarrow> Some (c\<lparr>elevators := (elevators c)[i := e']\<rparr>))
      | None \<Rightarrow> Some (c\<lparr>controller_console := controller_console c @ [NoAvailable]\<rparr>))"

section \<open>Runs of one elevator\<close>

text \<open>
  What can happen to an elevator between two moments at which nothing of it is
  executing: a caller submits a request built by the constructor, or the parked
  continuation of the drain process is resumed.
\<close>

datatype Action = Submit int int | Resume

fun run :: "Action list \<Rightarrow> Elevator \<Rightarrow> Elevator option" where
  "run [] e = Some e"
| "run (Submit src dst # acts) e =
     (case addRequest (new_Request src dst) e of
        None \<Rightarrow> None
      | Some (accepted, e') \<Rightarrow> run acts e')"
| "run (Resume # acts) e = run acts (resume e)"



section \<open>The properties, as predicates\<close>

text \<open>An elevator the controller may pick (the negation of the test of line 132).\<close>

definition eligible :: "Elevator \<Rightarrow> bool" where
  "eligible e = (passengers e < capacityLimit e)"

text \<open>The distance of line 136, as the program computes it.\<close>

definition distance_to :: "Request \<Rightarrow> Elevator \<Rightarrow> enat" where
  "distance_to request e = js_distance (currentFloor e) (sourceFloor request)"

definition ascending :: "Request list \<Rightarrow> bool" where
  "ascending q = sorted (map destinationFloor q)"

definition descending :: "Request list \<Rightarrow> bool" where
  "descending q = sorted (rev (map destinationFloor q))"

text \<open>The queue is sorted the way the direction of the elevator asks for.\<close>

definition queue_matches_direction :: "Elevator \<Rightarrow> bool" where
  "queue_matches_direction e =
     ((Elevator.direction e = UP \<longrightarrow> ascending (requests e)) \<and>
      (Elevator.direction e = DOWN \<longrightarrow> descending (requests e)))"

text \<open>
  Position \<open>i\<close> holds an eligible elevator at a finite computed distance that is at
  least as near to the source floor as every eligible elevator, and strictly nearer
  than every eligible one before it.
\<close>

definition first_nearest :: "Elevator list \<Rightarrow> Request \<Rightarrow> nat \<Rightarrow> bool" where
  "first_nearest es request i =
     (i < length es \<and> eligible (es ! i) \<and> distance_to request (es ! i) < \<infinity> \<and>
      (\<forall>j < length es. eligible (es ! j) \<longrightarrow>
         distance_to request (es ! i) \<le> distance_to request (es ! j)) \<and>
      (\<forall>j < i. eligible (es ! j) \<longrightarrow>
         distance_to request (es ! i) < distance_to request (es ! j)))"

text \<open>
  The same with the absolute distance between the floors themselves: the first of the
  eligible elevators nearest to the source floor.
\<close>

definition first_nearest_exact :: "Elevator list \<Rightarrow> Request \<Rightarrow> nat \<Rightarrow> bool" where
  "first_nearest_exact es request i =
     (i < length es \<and> eligible (es ! i) \<and>
      (\<forall>j < length es. eligible (es ! j) \<longrightarrow>
         \<bar>currentFloor (es ! i) - sourceFloor request\<bar> \<le>
         \<bar>currentFloor (es ! j) - sourceFloor request\<bar>) \<and>
      (\<forall>j < i. eligible (es ! j) \<longrightarrow>
         \<bar>currentFloor (es ! i) - sourceFloor request\<bar> <
         \<bar>currentFloor (es ! j) - sourceFloor request\<bar>))"

text \<open>
  \<open>q'\<close> holds the requests of \<open>q\<close>, in the order direction \<open>d\<close> asks for, and requests with
  the same destination floor stand in \<open>q'\<close> as they stood in \<open>q\<close>.
\<close>

definition reordered :: "Direction \<Rightarrow> Request list \<Rightarrow> Request list \<Rightarrow> bool" where
  "reordered d q q' =
     (mset q' = mset q \<and>
      (d = UP \<longrightarrow> ascending q') \<and>
      (d = DOWN \<longrightarrow> descending q') \<and>
      (\<forall>k \<in> set (map destinationFloor q).
         filter (\<lambda>r. destinationFloor r = k) q' = filter (\<lambda>r. destinationFloor r = k) q))"


text \<open>The queue \<open>q\<close> is in the order that direction \<open>d\<close> asks for.\<close>

definition sorted_for :: "Direction \<Rightarrow> Request list \<Rightarrow> bool" where
  "sorted_for d q = ((d = UP \<longrightarrow> ascending q) \<and> (d = DOWN \<longrightarrow> descending q))"

text \<open>
  The direction an elevator had right after the most recent accepted \<^verbatim>\<open>addRequest\<close> of
  a run, which is the last time its queue was sorted; \<open>d\<close> when the run has none.
\<close>

fun last_reorder :: "Action list \<Rightarrow> Elevator \<Rightarrow> Direction \<Rightarrow> Direction" where
  "last_reorder [] e d = d"
| "last_reorder (Submit src dst # acts) e d =
     (case addRequest (new_Request src dst) e of
        None \<Rightarrow> d
      | Some (accepted, e') \<Rightarrow>
          last_reorder acts e' (if accepted then Elevator.direction e' else d))"
| "last_reorder (Resume # acts) e d = last_reorder acts (resume e) d"

text \<open>The next resumption of the drain process is the drop-off of lines 80 to 89.\<close>

definition dropoff_next :: "Elevator \<Rightarrow> bool" where
  "dropoff_next e = (case pending e of DestArrived request \<Rightarrow> True | _ \<Rightarrow> False)"

text \<open>Every request object an elevator holds: its queue, and the one being served.\<close>

definition held :: "Elevator \<Rightarrow> Request list" where
  "held e =
     requests e @
     (case pending e of
        NoTask \<Rightarrow> []
      | SourceTimer request \<Rightarrow> [request]
      | SourceArrived request \<Rightarrow> [request]
      | DestTimer request \<Rightarrow> [request]
      | DestArrived request \<Rightarrow> [request])"

text \<open>
  The arrival lines of a trip of elevator \<open>i\<close> from floor \<open>a\<close> to floor \<open>b\<close>: one line for
  every floor after \<open>a\<close> up to \<open>b\<close>, in the order of travel.
\<close>

definition arrivals :: "int \<Rightarrow> int \<Rightarrow> int \<Rightarrow> Event list" where
  "arrivals i a b =
     (if a \<le> b then map (Arrived i) [a + 1..b] else map (Arrived i) (rev [b..a - 1]))"

text \<open>
  A trip as the specification words it: the elevator ends at the floor it travels to,
  having announced the departure and each floor it arrived at.
\<close>

definition travel :: "int \<Rightarrow> Elevator \<Rightarrow> Elevator" where
  "travel target e =
     e\<lparr>currentFloor := target,
       console := console e @ Moving (ident e) (currentFloor e) target #
                    arrivals (ident e) (currentFloor e) target\<rparr>"



text \<open>
  What holds of an elevator whenever nothing of it is executing: the flag of the
  polling lock is down, \<^verbatim>\<open>isMoving\<close> says whether a drain process is parked, a
  non-empty queue has a drain process, there is a passenger on board exactly while the
  elevator travels to a destination, a request was accepted only by an elevator with
  room for one, and every held request has a direction of its own.
\<close>

definition settled :: "Elevator \<Rightarrow> bool" where
  "settled e =
     (\<not> mutex e \<and>
      (isMoving e \<longleftrightarrow> pending e \<noteq> NoTask) \<and>
      (requests e \<noteq> [] \<longrightarrow> pending e \<noteq> NoTask) \<and>
      (pending e \<noteq> NoTask \<longrightarrow> 1 \<le> capacityLimit e) \<and>
      passengers e =
        (case pending e of DestTimer request \<Rightarrow> 1 | DestArrived request \<Rightarrow> 1 | _ \<Rightarrow> 0) \<and>
      (\<forall>request \<in> set (held e). Request.direction request \<noteq> IDLE) \<and>
      (ascending (requests e) \<or> descending (requests e)))"

section \<open>Scenarios\<close>

text \<open>Three elevators of capacity 2 at floors 0, 3 and 7, nobody on board.\<close>

definition three_cars :: "Elevator list" where
  "three_cars =
     [(new_Elevator 1 2)\<lparr>currentFloor := 0\<rparr>,
      (new_Elevator 2 2)\<lparr>currentFloor := 3\<rparr>,
      (new_Elevator 3 2)\<lparr>currentFloor := 7\<rparr>]"

text \<open>
  The first elevator of the demo right after it has accepted \<^verbatim>\<open>Request(0, 5)\<close>: the
  passenger is on board and the timer of the first unit step is running.
\<close>

definition first_trip_started :: Elevator where
  "first_trip_started =
     \<lparr> ident = 1, capacityLimit = 5, currentFloor = 0, direction = UP, requests = [],
       passengers = 1, isMoving = True, mutex = False,
       console = [PickedUp 1 0, Moving 1 0 5], pending = DestTimer (new_Request 0 5) \<rparr>"

text \<open>
  The first floor beyond \<open>2 ^ 53\<close> that is a double, \<open>2 ^ 53 + 2\<close>, and an elevator that
  has just accepted a request from floor 0 to that floor.
\<close>

definition far_floor :: int where
  "far_floor = 9007199254740994"


text \<open>
  Two elevators with room at floors 0 and 1, and a request from floor \<open>2 ^ 53 + 4\<close>.
\<close>

definition two_cars :: "Elevator list" where
  "two_cars = [new_Elevator 1 2, (new_Elevator 2 2)\<lparr>currentFloor := 1\<rparr>]"

definition far_request :: Request where
  "far_request = new_Request 9007199254740996 0"

text \<open>A queue with the destination floors 5, 2 and 9, in this order.\<close>

definition queue_5_2_9 :: "Request list" where
  "queue_5_2_9 = [new_Request 0 5, new_Request 0 2, new_Request 0 9]"

text \<open>
  The five requests that \<^verbatim>\<open>ElevatorSystem.run\<close> submits (lines 158 to 164). The
  controller hands all five to the first elevator, since no elevator has left floor 0
  by the time the last one is submitted.
\<close>

definition demo_requests :: "Action list" where
  "demo_requests = [Submit 0 5, Submit 3 10, Submit 2 1, Submit 7 0, Submit 6 2]"

section \<open>Auxiliary facts: rounding\<close>

lemma bit_length_le: "n < 2 ^ k \<Longrightarrow> bit_length n \<le> k"
proof (induction k arbitrary: n)
  case 0
  then show ?case by (simp add: bit_length.simps)
next
  case (Suc k)
  show ?case
  proof (cases "n \<le> 0")
    case True
    then show ?thesis by (simp add: bit_length.simps)
  next
    case False
    from Suc.prems have "n div 2 < 2 ^ k" by simp
    from Suc.IH [OF this] False show ?thesis
      by (subst bit_length.simps) simp
  qed
qed

lemma bit_length_gt: "2 ^ k \<le> n \<Longrightarrow> k < bit_length n"
proof (induction k arbitrary: n)
  case 0
  then show ?case by (subst bit_length.simps) simp
next
  case (Suc k)
  then have "2 ^ k \<le> n div 2" by simp
  moreover have "0 < n"
  proof (rule ccontr)
    assume "\<not> 0 < n"
    moreover have "(0::int) < 2 ^ Suc k" by simp
    ultimately show False using Suc.prems by linarith
  qed
  ultimately show ?case using Suc.IH [of "n div 2"]
    by (subst bit_length.simps) simp
qed

lemma bit_length_power: "bit_length (2 ^ k) = Suc k"
proof -
  have "(2::int) ^ k < 2 ^ Suc k" by simp
  from bit_length_le [OF this] bit_length_gt [of k "2 ^ k"] show ?thesis by simp
qed

lemma fl_small: "\<bar>n\<bar> < 2 ^ 53 \<Longrightarrow> fl n = n"
proof -
  assume "\<bar>n\<bar> < 2 ^ 53"
  then have "bit_length \<bar>n\<bar> - 53 = 0"
    using bit_length_le [of "\<bar>n\<bar>" 53] by simp
  then have "fl n = sgn n * \<bar>n\<bar>" by (simp add: fl_def Let_def)
  then show ?thesis by (simp add: mult_sgn_abs)
qed

lemma fl_2_53: "\<bar>n\<bar> = 2 ^ 53 \<Longrightarrow> fl n = n"
proof -
  assume a: "\<bar>n\<bar> = 2 ^ 53"
  have "bit_length \<bar>n\<bar> - 53 = 1"
    unfolding a by (simp only: bit_length_power)
  then have "fl n = sgn n * \<bar>n\<bar>"
    unfolding fl_def Let_def a by simp
  then show ?thesis by (simp add: mult_sgn_abs)
qed

lemma fl_exact: "\<bar>n\<bar> \<le> 2 ^ 53 \<Longrightarrow> fl n = n"
  using fl_small [of n] fl_2_53 [of n] by (cases "\<bar>n\<bar> = 2 ^ 53") auto

lemma fl_above_2_53: "fl (2 ^ 53 + 1) = 2 ^ 53"
  by code_simp

lemma fl_below_minus_2_53: "fl (- (2 ^ 53) - 1) = - (2 ^ 53)"
  by code_simp

section \<open>Auxiliary facts: the lock, the sort, the reordering\<close>

lemma await_mutex_free: "\<not> mutex e \<Longrightarrow> await_mutex e = Some e"
  by (subst await_mutex.simps) simp

lemma await_mutex_Some:
  assumes "await_mutex e = Some e'"
  shows "\<not> mutex e \<and> e' = e"
  by (rule await_mutex.raw_induct [where P = "\<lambda>x y. \<not> mutex x \<and> y = x", OF _ assms])
     (auto split: if_splits)

lemma insert_cmp_asc:
  "insert_cmp (\<lambda>a b. f a - f b) x ys = insort_key f x ys"
  by (induction ys) auto

lemma array_sort_asc: "array_sort (\<lambda>a b. f a - f b) xs = sort_key f xs"
  by (induction xs) (auto simp: array_sort_def insert_cmp_asc)

lemma insert_cmp_desc:
  "insert_cmp (\<lambda>a b. f b - f a) x ys = insort_key (\<lambda>r. - f r) x ys"
  by (induction ys) auto

lemma array_sort_desc: "array_sort (\<lambda>a b. f b - f a) xs = sort_key (\<lambda>r. - f r) xs"
  by (induction xs) (auto simp: array_sort_def insert_cmp_desc)

lemma sorted_neg_rev: "sorted (map (\<lambda>r. - f r) xs) \<Longrightarrow> sorted (rev (map f xs :: int list))"
  by (induction xs) (auto simp: sorted_append)

lemma ascending_sort: "ascending (array_sort (\<lambda>a b. destinationFloor a - destinationFloor b) q)"
  by (simp add: ascending_def array_sort_asc)

lemma descending_sort: "descending (array_sort (\<lambda>a b. destinationFloor b - destinationFloor a) q)"
  unfolding descending_def array_sort_desc by (rule sorted_neg_rev) simp

lemma optimizeRequests_UP:
  "Elevator.direction e = UP \<Longrightarrow> optimizeRequests e =
     Some (e\<lparr>requests := array_sort (\<lambda>a b. destinationFloor a - destinationFloor b) (requests e)\<rparr>)"
  by (subst optimizeRequests.simps) simp

lemma optimizeRequests_DOWN:
  "Elevator.direction e = DOWN \<Longrightarrow> optimizeRequests e =
     Some (e\<lparr>requests := array_sort (\<lambda>a b. destinationFloor b - destinationFloor a) (requests e)\<rparr>)"
  by (subst optimizeRequests.simps) simp

lemma optimizeRequests_IDLE_empty:
  "Elevator.direction e = IDLE \<Longrightarrow> requests e = [] \<Longrightarrow> optimizeRequests e = Some e"
  by (subst optimizeRequests.simps) simp

lemma optimizeRequests_IDLE_adopt:
  "Elevator.direction e = IDLE \<Longrightarrow> requests e \<noteq> [] \<Longrightarrow>
   optimizeRequests e =
     optimizeRequests (e\<lparr>Elevator.direction := Request.direction (hd (requests e))\<rparr>)"
  by (subst optimizeRequests.simps) simp

lemma optimizeRequests_Some_head:
  assumes "optimizeRequests e = Some e'"
  shows "\<not> (Elevator.direction e = IDLE \<and> requests e \<noteq> [] \<and> Request.direction (hd (requests e)) = IDLE)"
  by (rule optimizeRequests.raw_induct [where P = "\<lambda>x y. \<not> (Elevator.direction x = IDLE \<and> requests x \<noteq> [] \<and> Request.direction (hd (requests x)) = IDLE)", OF _ assms])
     (fastforce split: if_splits)

lemma optimizeRequests_IDLE_endless:
  "Elevator.direction e = IDLE \<Longrightarrow> requests e \<noteq> [] \<Longrightarrow> Request.direction (hd (requests e)) = IDLE \<Longrightarrow>
   optimizeRequests e = None"
  using optimizeRequests_Some_head [of e] by (cases "optimizeRequests e") auto

section \<open>Auxiliary facts: the selection loop\<close>

lemma find_loop_keeps:
  "\<forall>e \<in> set es. eligible e \<longrightarrow> \<not> distance_to r e < m \<Longrightarrow> find_loop es r k opt m = opt"
  by (induction es arbitrary: k) (auto simp: eligible_def distance_to_def Let_def)

lemma find_loop_picks:
  "\<exists>e \<in> set es. eligible e \<and> distance_to r e < m \<Longrightarrow>
   \<exists>j < length es. find_loop es r k opt m = Some (k + j) \<and> eligible (es ! j) \<and>
      distance_to r (es ! j) < m \<and>
      (\<forall>i < length es. eligible (es ! i) \<longrightarrow> distance_to r (es ! j) \<le> distance_to r (es ! i)) \<and>
      (\<forall>i < j. eligible (es ! i) \<longrightarrow> distance_to r (es ! j) < distance_to r (es ! i))"
proof (induction es arbitrary: k opt m)
  case Nil
  then show ?case by simp
next
  case (Cons e es)
  show ?case
  proof (cases "eligible e \<and> distance_to r e < m")
    case True
    let ?m = "distance_to r e"
    have step: "find_loop (e # es) r k opt m = find_loop es r (Suc k) (Some k) ?m"
      using True by (auto simp: eligible_def distance_to_def Let_def)
    show ?thesis
    proof (cases "\<exists>x \<in> set es. eligible x \<and> distance_to r x < ?m")
      case better: True
      from Cons.IH [OF better, of "Suc k" "Some k"]
      obtain j where j: "j < length es" "find_loop es r (Suc k) (Some k) ?m = Some (Suc k + j)"
        "eligible (es ! j)" "distance_to r (es ! j) < ?m"
        "\<forall>i < length es. eligible (es ! i) \<longrightarrow> distance_to r (es ! j) \<le> distance_to r (es ! i)"
        "\<forall>i < j. eligible (es ! i) \<longrightarrow> distance_to r (es ! j) < distance_to r (es ! i)"
        by blast
      have lt: "distance_to r (es ! j) < distance_to r e" using j(4) by simp
      have "distance_to r (es ! j) < m" using True lt by auto
      with j lt step show ?thesis
        by (intro exI [of _ "Suc j"]) (auto simp: nth_Cons split: nat.splits)
    next
      case none: False
      then have "find_loop es r (Suc k) (Some k) ?m = Some k"
        by (intro find_loop_keeps) auto
      moreover have "\<forall>i < length es. eligible (es ! i) \<longrightarrow> distance_to r e \<le> distance_to r (es ! i)"
        using none by (force simp: in_set_conv_nth)
      ultimately show ?thesis using True step
        by (intro exI [of _ 0]) (auto simp: nth_Cons split: nat.splits)
    qed
  next
    case False
    then have step: "find_loop (e # es) r k opt m = find_loop es r (Suc k) opt m"
      by (auto simp: eligible_def distance_to_def Let_def)
    from False Cons.prems have "\<exists>x \<in> set es. eligible x \<and> distance_to r x < m" by auto
    from Cons.IH [OF this, of "Suc k" opt]
    obtain j where j: "j < length es" "find_loop es r (Suc k) opt m = Some (Suc k + j)"
        "eligible (es ! j)" "distance_to r (es ! j) < m"
        "\<forall>i < length es. eligible (es ! i) \<longrightarrow> distance_to r (es ! j) \<le> distance_to r (es ! i)"
        "\<forall>i < j. eligible (es ! i) \<longrightarrow> distance_to r (es ! j) < distance_to r (es ! i)"
      by blast
    have "eligible e \<longrightarrow> distance_to r (es ! j) < distance_to r e"
      using False j(4) by auto
    with j step show ?thesis
      by (intro exI [of _ "Suc j"]) (auto simp: nth_Cons split: nat.splits)
  qed
qed

lemma js_distance_exact:
  "\<bar>a - b\<bar> \<le> 2 ^ 53 \<Longrightarrow> js_distance a b = enat (nat \<bar>a - b\<bar>)"
proof -
  assume a: "\<bar>a - b\<bar> \<le> 2 ^ 53"
  then have "fl \<bar>a - b\<bar> = \<bar>a - b\<bar>" by (intro fl_exact) simp
  moreover have "(2::int) ^ 53 < 2 ^ 1024" by (intro power_strict_increasing) simp_all
  with a have "\<bar>a - b\<bar> < 2 ^ 1024" by (rule le_less_trans)
  ultimately show ?thesis by (simp add: js_distance_def Let_def del: power_numeral)
qed

lemma findOptimalElevator_None:
  "(findOptimalElevator es r = None) =
   (\<forall>e \<in> set es. eligible e \<longrightarrow> distance_to r e = \<infinity>)"
proof
  assume n: "findOptimalElevator es r = None"
  show "\<forall>e \<in> set es. eligible e \<longrightarrow> distance_to r e = \<infinity>"
  proof (rule ccontr)
    assume "\<not> (\<forall>e \<in> set es. eligible e \<longrightarrow> distance_to r e = \<infinity>)"
    then have "\<exists>e \<in> set es. eligible e \<and> distance_to r e < \<infinity>"
      by auto
    from find_loop_picks [OF this, of 0 None] n show False
      by (auto simp: findOptimalElevator_def)
  qed
next
  assume "\<forall>e \<in> set es. eligible e \<longrightarrow> distance_to r e = \<infinity>"
  then show "findOptimalElevator es r = None"
    unfolding findOptimalElevator_def by (intro find_loop_keeps) auto
qed

lemma findOptimalElevator_first_nearest:
  "(findOptimalElevator es r = Some i) = first_nearest es r i"
proof
  assume s: "findOptimalElevator es r = Some i"
  then have "\<not> (\<forall>e \<in> set es. eligible e \<longrightarrow> distance_to r e = \<infinity>)"
    using findOptimalElevator_None [of es r] by auto
  then have "\<exists>e \<in> set es. eligible e \<and> distance_to r e < \<infinity>"
    by auto
  from find_loop_picks [OF this, of 0 None] s show "first_nearest es r i"
    by (auto simp: findOptimalElevator_def first_nearest_def)
next
  assume f: "first_nearest es r i"
  then have "\<exists>e \<in> set es. eligible e \<and> distance_to r e < \<infinity>"
    by (auto simp: first_nearest_def)
  from find_loop_picks [OF this, of 0 None]
  obtain j where j: "findOptimalElevator es r = Some j" "first_nearest es r j"
    by (auto simp: findOptimalElevator_def first_nearest_def)
  have "i = j"
  proof (rule ccontr)
    assume "i \<noteq> j"
    then consider "i < j" | "j < i" by linarith
    then show False
    proof cases
      case 1
      with f j(2) show False unfolding first_nearest_def
        by (metis leD)
    next
      case 2
      with f j(2) show False unfolding first_nearest_def
        by (metis leD)
    qed
  qed
  with j show "findOptimalElevator es r = Some i" by simp
qed

lemma first_nearest_exact_iff:
  assumes "\<forall>e \<in> set es. \<bar>currentFloor e - sourceFloor r\<bar> \<le> 2 ^ 53"
  shows "first_nearest es r i = first_nearest_exact es r i"
proof -
  have d: "distance_to r (es ! j) = enat (nat \<bar>currentFloor (es ! j) - sourceFloor r\<bar>)"
    if "j < length es" for j
    using assms that by (simp add: distance_to_def js_distance_exact)
  show ?thesis
  proof (cases "i < length es")
    case False
    then show ?thesis by (simp add: first_nearest_def first_nearest_exact_def)
  next
    case True
    have d': "distance_to r (es ! j) = enat (nat \<bar>currentFloor (es ! j) - sourceFloor r\<bar>)"
      if "j < i" for j
      using d [of j] that True by simp
    show ?thesis
      unfolding first_nearest_def first_nearest_exact_def
      by (simp add: d d' True) (auto simp: nat_le_eq_zle)
  qed
qed

section \<open>Auxiliary facts: what a returning reordering has done\<close>

lemma reordered_asc:
  "reordered UP q (array_sort (\<lambda>a b. destinationFloor a - destinationFloor b) q)"
  unfolding reordered_def
  by (simp add: ascending_sort) (simp add: array_sort_asc sort_key_stable)

lemma reordered_desc:
  "reordered DOWN q (array_sort (\<lambda>a b. destinationFloor b - destinationFloor a) q)"
proof -
  have "filter (\<lambda>r. destinationFloor r = k) (sort_key (\<lambda>r. - destinationFloor r) q) =
        filter (\<lambda>r. destinationFloor r = k) q" for k
    using sort_key_stable [of "\<lambda>r. - destinationFloor r" "- k" q] by simp
  then show ?thesis
    unfolding reordered_def by (simp add: descending_sort) (simp add: array_sort_desc)
qed

lemma reordered_Nil: "reordered d [] []"
  by (simp add: reordered_def ascending_def descending_def)

lemma direction_update_same:
  "Elevator.direction e = d \<Longrightarrow> e\<lparr>Elevator.direction := d, requests := q\<rparr> = e\<lparr>requests := q\<rparr>"
  by (cases e) auto

lemma optimizeRequests_Some:
  assumes "optimizeRequests e = Some e'"
  shows "\<exists>d q. e' = e\<lparr>Elevator.direction := d, requests := q\<rparr> \<and>
             reordered d (requests e) q \<and>
             d = (if Elevator.direction e = IDLE \<and> requests e \<noteq> []
                  then Request.direction (hd (requests e)) else Elevator.direction e) \<and>
             (d = IDLE \<longrightarrow> requests e = [])"
proof (cases "Elevator.direction e")
  case UP
  with assms reordered_asc [of "requests e"] show ?thesis
    by (auto simp: optimizeRequests_UP direction_update_same)
next
  case DOWN
  with assms reordered_desc [of "requests e"] show ?thesis
    by (auto simp: optimizeRequests_DOWN direction_update_same)
next
  case IDLE
  show ?thesis
  proof (cases "requests e = []")
    case True
    with IDLE assms have "e' = e" by (simp add: optimizeRequests_IDLE_empty)
    with IDLE True show ?thesis
      by (auto simp: reordered_Nil intro!: exI [of _ IDLE] exI [of _ "[]"])
  next
    case False
    let ?d = "Request.direction (hd (requests e))"
    let ?e = "e\<lparr>Elevator.direction := ?d\<rparr>"
    from optimizeRequests_Some_head [OF assms] IDLE False have d: "?d \<noteq> IDLE" by simp
    from IDLE False assms have step: "optimizeRequests ?e = Some e'"
      by (simp add: optimizeRequests_IDLE_adopt)
    from d consider "?d = UP" | "?d = DOWN" by (cases ?d) auto
    then show ?thesis
    proof cases
      case 1
      with step reordered_asc [of "requests e"] IDLE False show ?thesis
        by (auto simp: optimizeRequests_UP)
    next
      case 2
      with step reordered_desc [of "requests e"] IDLE False show ?thesis
        by (auto simp: optimizeRequests_DOWN)
    qed
  qed
qed

lemma reordered_set: "reordered d q q' \<Longrightarrow> set q' = set q"
  by (auto simp: reordered_def dest: mset_eq_setD)

section \<open>Auxiliary facts: the requests an elevator holds\<close>

lemma held_resume: "set (held (resume e)) \<subseteq> set (held e)"
  by (auto simp: held_def resume_def timer_fired_def unit_step_def pickup_def dropoff_def
      loop_head_def call_moveToFloor_def Let_def split: Pending.splits if_splits
      dest: list.set_sel(2) hd_in_set)

lemma held_processRequests:
  "set (held (processRequests e)) \<subseteq> set (held e)"
  by (auto simp: held_def processRequests_def pickup_def 
      loop_head_def call_moveToFloor_def Let_def split: Pending.splits if_splits
      dest: list.set_sel(2) hd_in_set)

lemma held_addRequest:
  assumes "addRequest r e = Some (b, e')"
  shows "set (held e') \<subseteq> insert r (set (held e))"
proof -
  from assms obtain e0 where "await_mutex e = Some e0"
    by (auto simp: addRequest_def split: option.splits)
  then have m: "await_mutex e = Some e" by (auto dest: await_mutex_Some)
  show ?thesis
  proof (cases "capacityLimit e \<le> passengers e")
    case True
    with assms m show ?thesis by (auto simp: addRequest_def Let_def held_def)
  next
    case False
    with assms m obtain e2 where
      o: "optimizeRequests (e\<lparr>mutex := True, requests := requests e @ [r]\<rparr>) = Some e2"
      and e': "e' = (if \<not> isMoving e2 then processRequests e2 else e2)\<lparr>mutex := False\<rparr>"
      by (auto simp: addRequest_def Let_def split: option.splits)
    from optimizeRequests_Some [OF o] obtain d q where
      q: "e2 = e\<lparr>mutex := True, requests := requests e @ [r],
                Elevator.direction := d, requests := q\<rparr>"
         "reordered d (requests e @ [r]) q"
      by auto
    from q(1) have "requests e2 = q" "pending e2 = pending e" by simp_all
    with reordered_set [OF q(2)] have h2: "set (held e2) \<subseteq> insert r (set (held e))"
      by (auto simp: held_def)
    have "set (held e') \<subseteq> set (held e2)"
      using held_processRequests [of e2] by (auto simp: e' held_def)
    with h2 show ?thesis by blast
  qed
qed

section \<open>Auxiliary facts: the settled states\<close>

lemma ascending_tl: "ascending q \<Longrightarrow> ascending (tl q)"
  by (cases q) (auto simp: ascending_def)

lemma descending_tl: "descending q \<Longrightarrow> descending (tl q)"
  by (cases q) (auto simp: descending_def sorted_append)

lemma settled_new: "settled (new_Elevator i cap)"
  by (simp add: settled_def new_Elevator_def held_def ascending_def)

lemma settled_loop_head:
  assumes "\<not> mutex e" "isMoving e" "1 \<le> capacityLimit e \<or> requests e = []" "passengers e = 0"
    "\<forall>r \<in> set (requests e). Request.direction r \<noteq> IDLE"
    "ascending (requests e) \<or> descending (requests e)"
  shows "settled (loop_head e)"
proof (cases "requests e")
  case Nil
  with assms show ?thesis
    by (simp add: settled_def loop_head_def held_def)
next
  case (Cons r q)
  with assms have "ascending q \<or> descending q"
    using ascending_tl [of "requests e"] descending_tl [of "requests e"] by auto
  with Cons assms show ?thesis
    by (auto simp: settled_def loop_head_def held_def pickup_def call_moveToFloor_def Let_def)
qed

lemma settled_resume: "settled e \<Longrightarrow> settled (resume e)"
proof (cases "pending e")
  case NoTask
  assume "settled e"
  with NoTask show ?thesis by (simp add: resume_def)
next
  case (SourceTimer r)
  assume "settled e"
  with SourceTimer show ?thesis
    by (auto simp: settled_def resume_def timer_fired_def unit_step_def held_def Let_def)
next
  case (SourceArrived r)
  assume "settled e"
  with SourceArrived show ?thesis
    by (auto simp: settled_def resume_def pickup_def call_moveToFloor_def held_def Let_def)
next
  case (DestTimer r)
  assume "settled e"
  with DestTimer show ?thesis
    by (auto simp: settled_def resume_def timer_fired_def unit_step_def held_def Let_def)
next
  case (DestArrived r)
  assume s: "settled e"
  have "settled (loop_head (e\<lparr>passengers := passengers e - 1,
      console := console e @ [DroppedOff (ident e) (currentFloor e)],
      Elevator.direction := (if length (requests e) = 0 then IDLE
         else Request.direction (hd (requests e)))\<rparr>))"
    using s DestArrived by (intro settled_loop_head) (auto simp: settled_def held_def)
  moreover have "resume e = loop_head (e\<lparr>passengers := passengers e - 1,
      console := console e @ [DroppedOff (ident e) (currentFloor e)],
      Elevator.direction := (if length (requests e) = 0 then IDLE
         else Request.direction (hd (requests e)))\<rparr>)"
    using DestArrived by (simp add: resume_def dropoff_def Let_def)
  ultimately show ?thesis by simp
qed

lemma reordered_sorted: "reordered d q q' \<Longrightarrow> d \<noteq> IDLE \<Longrightarrow> ascending q' \<or> descending q'"
  by (cases d) (auto simp: reordered_def)

lemma settled_addRequest:
  assumes s: "settled e" and r: "Request.direction r \<noteq> IDLE"
  shows "\<exists>b e'. addRequest r e = Some (b, e') \<and> settled e' \<and>
           capacityLimit e' = capacityLimit e \<and> ident e' = ident e \<and>
           (b \<longrightarrow> queue_matches_direction e')"
proof (cases "capacityLimit e \<le> passengers e")
  case True
  with s show ?thesis
    by (auto simp: addRequest_def await_mutex_free settled_def Let_def held_def)
next
  case False
  let ?e1 = "e\<lparr>mutex := True, requests := requests e @ [r]\<rparr>"
  from s have m: "await_mutex e = Some e" by (simp add: await_mutex_free settled_def)
  have "\<exists>e2. optimizeRequests ?e1 = Some e2"
  proof (cases "Elevator.direction e")
    case UP then show ?thesis by (simp add: optimizeRequests_UP)
  next
    case DOWN then show ?thesis by (simp add: optimizeRequests_DOWN)
  next
    case IDLE
    let ?d = "Request.direction (hd (requests e @ [r]))"
    from s r have "?d \<noteq> IDLE"
      by (cases "requests e") (auto simp: settled_def held_def)
    then consider "?d = UP" | "?d = DOWN" by (cases ?d) auto
    then show ?thesis
      using IDLE by cases (simp_all add: optimizeRequests_IDLE_adopt optimizeRequests_UP optimizeRequests_DOWN)
  qed
  then obtain e2 where o: "optimizeRequests ?e1 = Some e2" by blast
  from optimizeRequests_Some [OF o] obtain d q where
    e2: "e2 = e\<lparr>mutex := True, requests := requests e @ [r],
              Elevator.direction := d, requests := q\<rparr>"
    and q: "reordered d (requests e @ [r]) q" and d: "d \<noteq> IDLE"
    by auto
  from q d have sq: "ascending q \<or> descending q" by (rule reordered_sorted)
  from q have setq: "set q = insert r (set (requests e))" by (auto dest: reordered_set)
  from q d have match: "(d = UP \<longrightarrow> ascending q) \<and> (d = DOWN \<longrightarrow> descending q)"
    by (simp add: reordered_def)
  have add: "addRequest r e =
      Some (True, (if \<not> isMoving e2 then processRequests e2 else e2)\<lparr>mutex := False\<rparr>)"
    using False m o by (simp add: addRequest_def Let_def)
  show ?thesis
  proof (cases "isMoving e")
    case True
    with s r sq setq match show ?thesis
      unfolding add e2
      by (auto simp: settled_def held_def queue_matches_direction_def split: Pending.splits)
  next
    case nm: False
    let ?e3 = "e2\<lparr>isMoving := True, mutex := False\<rparr>"
    have cap: "1 \<le> capacityLimit e" using s False nm by (auto simp: settled_def)
    have "settled (loop_head ?e3)"
      using s r sq setq nm cap unfolding e2
      by (intro settled_loop_head) (auto simp: settled_def held_def)
    moreover have "(processRequests e2)\<lparr>mutex := False\<rparr> = loop_head ?e3"
      by (simp add: processRequests_def loop_head_def pickup_def call_moveToFloor_def Let_def e2)
    moreover have "capacityLimit (loop_head ?e3) = capacityLimit e" "ident (loop_head ?e3) = ident e"
      by (simp_all add: loop_head_def pickup_def call_moveToFloor_def Let_def e2)
    moreover have "queue_matches_direction (loop_head ?e3)"
      using match ascending_tl [of q] descending_tl [of q]
      by (auto simp: queue_matches_direction_def loop_head_def pickup_def call_moveToFloor_def Let_def e2)
    ultimately show ?thesis using nm unfolding add
      by (intro exI [of _ True] exI [of _ "loop_head ?e3"]) (simp add: e2)
  qed
qed

lemma resume_keeps: "capacityLimit (resume e) = capacityLimit e \<and> ident (resume e) = ident e"
  by (auto simp: resume_def timer_fired_def unit_step_def pickup_def dropoff_def
      loop_head_def call_moveToFloor_def Let_def split: Pending.splits)

lemma run_settled:
  "settled e \<Longrightarrow> \<exists>e'. run acts e = Some e' \<and> settled e' \<and>
      capacityLimit e' = capacityLimit e \<and> ident e' = ident e"
proof (induction acts arbitrary: e)
  case Nil
  then show ?case by simp
next
  case (Cons a acts)
  show ?case
  proof (cases a)
    case (Submit src dst)
    have "Request.direction (new_Request src dst) \<noteq> IDLE" by (simp add: new_Request_def)
    from settled_addRequest [OF Cons.prems this]
    obtain b e1 where 1: "addRequest (new_Request src dst) e = Some (b, e1)" "settled e1"
      "capacityLimit e1 = capacityLimit e" "ident e1 = ident e" by blast
    from Cons.IH [OF 1(2)] 1 Submit show ?thesis by auto
  next
    case Resume
    from Cons.IH [OF settled_resume [OF Cons.prems]] Resume show ?thesis
      by (auto simp: resume_keeps)
  qed
qed

lemma settled_occupancy:
  "settled e \<Longrightarrow> 0 \<le> capacityLimit e \<Longrightarrow> 0 \<le> passengers e \<and> passengers e \<le> capacityLimit e"
  by (auto simp: settled_def split: Pending.splits)

section \<open>The request\<close>

text \<open>
  Claim C7. A request built from two different floors has the direction \<open>UP\<close> exactly
  when its destination floor is above its source floor, and \<open>DOWN\<close> otherwise; its two
  floors are the arguments of the constructor. No operation of an elevator writes to a
  request afterwards: the request objects an elevator holds after a resumption of its
  drain process are among those it held before, and after \<^verbatim>\<open>addRequest\<close> they are among
  those it held before and the submitted one.
\<close>

theorem Request_direction_derived:
  "src \<noteq> dst \<Longrightarrow>
   (Request.direction (new_Request src dst) = UP \<longleftrightarrow> dst > src) \<and>
   (Request.direction (new_Request src dst) = DOWN \<longleftrightarrow> \<not> dst > src) \<and>
   sourceFloor (new_Request src dst) = src \<and>
   destinationFloor (new_Request src dst) = dst \<and>
   set (held (resume e)) \<subseteq> set (held e) \<and>
   (\<forall>r b e'. addRequest r e = Some (b, e') \<longrightarrow> set (held e') \<subseteq> insert r (set (held e)))"
  using held_resume [of e] held_addRequest [of _ e]
  by (simp add: new_Request_def)

theorem Request_direction_derived_witness:
  "(0::int) \<noteq> 5 \<and> Request.direction (new_Request 0 5) = UP \<and>
   (2::int) \<noteq> 1 \<and> Request.direction (new_Request 2 1) = DOWN \<and>
   addRequest (new_Request 3 10) first_trip_started =
     Some (True, first_trip_started\<lparr>requests := [new_Request 3 10]\<rparr>) \<and>
   set (held (first_trip_started\<lparr>requests := [new_Request 3 10]\<rparr>)) \<subseteq>
     insert (new_Request 3 10) (set (held first_trip_started))"
proof -
  have a: "addRequest (new_Request 3 10) first_trip_started =
     Some (True, first_trip_started\<lparr>requests := [new_Request 3 10]\<rparr>)"
    by code_simp
  have neq: "(0::int) \<noteq> 5" "(2::int) \<noteq> 1" by simp_all
  note T = Request_direction_derived [OF neq(1), of first_trip_started]
  from T have up: "Request.direction (new_Request 0 5) = UP" by simp
  from T a have sub: "set (held (first_trip_started\<lparr>requests := [new_Request 3 10]\<rparr>)) \<subseteq>
     insert (new_Request 3 10) (set (held first_trip_started))"
    by blast
  from Request_direction_derived [OF neq(2), of first_trip_started]
  have down: "Request.direction (new_Request 2 1) = DOWN" by simp
  from up down a sub show ?thesis by simp
qed

text \<open>
  Claim C10. The constructor is a total function with no failing branch: for equal
  floors it returns a request with these floors and the direction \<open>DOWN\<close>.
\<close>

theorem Request_equal_floors_DOWN:
  "new_Request f f = \<lparr> sourceFloor = f, destinationFloor = f, direction = DOWN \<rparr>"
  by (simp add: new_Request_def)

section \<open>No elevator with room\<close>

text \<open>
  Claim C8. When every elevator is at or over its capacity, \<^verbatim>\<open>handleRequest\<close> writes
  the line that no elevator is available; the request is passed to no elevator and kept
  nowhere, and every elevator is as it was.
\<close>

theorem handleRequest_no_car_available:
  "\<forall>e \<in> set (elevators c). capacityLimit e \<le> passengers e \<Longrightarrow>
   handleRequest r c = Some (c\<lparr>controller_console := controller_console c @ [NoAvailable]\<rparr>)"
proof -
  assume "\<forall>e \<in> set (elevators c). capacityLimit e \<le> passengers e"
  then have "findOptimalElevator (elevators c) r = None"
    by (auto simp: findOptimalElevator_None eligible_def)
  then show ?thesis by (simp add: handleRequest_def)
qed

theorem handleRequest_no_car_available_witness:
  "capacityLimit ((new_Elevator 1 2)\<lparr>passengers := 2\<rparr>) \<le>
     passengers ((new_Elevator 1 2)\<lparr>passengers := 2\<rparr>) \<and>
   capacityLimit (new_Elevator 2 0) \<le> passengers (new_Elevator 2 0) \<and>
   handleRequest (new_Request 0 5)
     \<lparr> elevators = [(new_Elevator 1 2)\<lparr>passengers := 2\<rparr>, new_Elevator 2 0],
       controller_console = [] \<rparr> =
   Some \<lparr> elevators = [(new_Elevator 1 2)\<lparr>passengers := 2\<rparr>, new_Elevator 2 0],
       controller_console = [NoAvailable] \<rparr>"
  using handleRequest_no_car_available [of
     "\<lparr> elevators = [(new_Elevator 1 2)\<lparr>passengers := 2\<rparr>, new_Elevator 2 0],
       controller_console = [] \<rparr>" "new_Request 0 5"]
  by (simp add: new_Elevator_def)

section \<open>Reordering the queue\<close>

text \<open>
  Claim C2. \<^verbatim>\<open>optimizeRequests\<close> returns the queue sorted by destination floor,
  ascending when the direction is \<open>UP\<close> and descending when it is \<open>DOWN\<close>, with the same
  requests and with equal destinations in their old order. An idle elevator with a
  non-empty queue first takes the direction of the request at the head of the queue
  and then sorts for that direction; an idle elevator with an empty queue is left as it
  is. The head request has a direction of its own, \<open>UP\<close> or \<open>DOWN\<close>, as every request
  of the constructor has. The destinations 5, 2, 9 come out as 2, 5, 9 under \<open>UP\<close> and
  as 9, 5, 2 under \<open>DOWN\<close>.
\<close>

theorem optimizeRequests_sorts_by_direction:
  "(Elevator.direction e = UP \<longrightarrow>
      (\<exists>q. optimizeRequests e = Some (e\<lparr>requests := q\<rparr>) \<and> reordered UP (requests e) q)) \<and>
   (Elevator.direction e = DOWN \<longrightarrow>
      (\<exists>q. optimizeRequests e = Some (e\<lparr>requests := q\<rparr>) \<and> reordered DOWN (requests e) q)) \<and>
   (Elevator.direction e = IDLE \<and> requests e \<noteq> [] \<and>
    Request.direction (hd (requests e)) = d \<and> d \<noteq> IDLE \<longrightarrow>
      (\<exists>q. optimizeRequests e = Some (e\<lparr>Elevator.direction := d, requests := q\<rparr>) \<and>
           reordered d (requests e) q)) \<and>
   (Elevator.direction e = IDLE \<and> requests e = [] \<longrightarrow> optimizeRequests e = Some e) \<and>
   optimizeRequests (e\<lparr>Elevator.direction := UP, requests := queue_5_2_9\<rparr>) =
     Some (e\<lparr>Elevator.direction := UP,
              requests := [new_Request 0 2, new_Request 0 5, new_Request 0 9]\<rparr>) \<and>
   optimizeRequests (e\<lparr>Elevator.direction := DOWN, requests := queue_5_2_9\<rparr>) =
     Some (e\<lparr>Elevator.direction := DOWN,
              requests := [new_Request 0 9, new_Request 0 5, new_Request 0 2]\<rparr>)"
proof (intro conjI impI)
  assume "Elevator.direction e = UP"
  then show "\<exists>q. optimizeRequests e = Some (e\<lparr>requests := q\<rparr>) \<and> reordered UP (requests e) q"
    using reordered_asc by (auto simp: optimizeRequests_UP)
next
  assume "Elevator.direction e = DOWN"
  then show "\<exists>q. optimizeRequests e = Some (e\<lparr>requests := q\<rparr>) \<and> reordered DOWN (requests e) q"
    using reordered_desc by (auto simp: optimizeRequests_DOWN)
next
  assume a: "Elevator.direction e = IDLE \<and> requests e \<noteq> [] \<and>
    Request.direction (hd (requests e)) = d \<and> d \<noteq> IDLE"
  then have step: "optimizeRequests e = optimizeRequests (e\<lparr>Elevator.direction := d\<rparr>)"
    by (simp add: optimizeRequests_IDLE_adopt)
  from a consider "d = UP" | "d = DOWN" by (cases d) auto
  then show "\<exists>q. optimizeRequests e = Some (e\<lparr>Elevator.direction := d, requests := q\<rparr>) \<and>
           reordered d (requests e) q"
  proof cases
    case 1
    then show ?thesis using reordered_asc [of "requests e"]
      by (auto simp: step optimizeRequests_UP)
  next
    case 2
    then show ?thesis using reordered_desc [of "requests e"]
      by (auto simp: step optimizeRequests_DOWN)
  qed
next
  assume "Elevator.direction e = IDLE \<and> requests e = []"
  then show "optimizeRequests e = Some e" by (simp add: optimizeRequests_IDLE_empty)
next
  show "optimizeRequests (e\<lparr>Elevator.direction := UP, requests := queue_5_2_9\<rparr>) =
     Some (e\<lparr>Elevator.direction := UP,
              requests := [new_Request 0 2, new_Request 0 5, new_Request 0 9]\<rparr>)"
    by (simp add: optimizeRequests_UP array_sort_def new_Request_def queue_5_2_9_def)
next
  show "optimizeRequests (e\<lparr>Elevator.direction := DOWN, requests := queue_5_2_9\<rparr>) =
     Some (e\<lparr>Elevator.direction := DOWN,
              requests := [new_Request 0 9, new_Request 0 5, new_Request 0 2]\<rparr>)"
    by (simp add: optimizeRequests_DOWN array_sort_def new_Request_def queue_5_2_9_def)
qed

theorem optimizeRequests_sorts_by_direction_witness:
  "optimizeRequests ((new_Elevator 1 5)\<lparr>requests := queue_5_2_9\<rparr>) =
     Some ((new_Elevator 1 5)\<lparr>Elevator.direction := UP,
             requests := [new_Request 0 2, new_Request 0 5, new_Request 0 9]\<rparr>) \<and>
   reordered UP queue_5_2_9 [new_Request 0 2, new_Request 0 5, new_Request 0 9] \<and>
   reordered DOWN queue_5_2_9 [new_Request 0 9, new_Request 0 5, new_Request 0 2] \<and>
   optimizeRequests (new_Elevator 1 5) = Some (new_Elevator 1 5)"
proof -
  let ?idle = "(new_Elevator 1 5)\<lparr>requests := queue_5_2_9\<rparr>"
  let ?up = "(new_Elevator 1 5)\<lparr>Elevator.direction := UP, requests := queue_5_2_9\<rparr>"
  let ?down = "(new_Elevator 1 5)\<lparr>Elevator.direction := DOWN, requests := queue_5_2_9\<rparr>"
  have idle: "Elevator.direction ?idle = IDLE \<and> requests ?idle \<noteq> [] \<and>
      Request.direction (hd (requests ?idle)) = UP \<and> UP \<noteq> IDLE"
    by (simp add: new_Elevator_def queue_5_2_9_def new_Request_def)
  have 1: "optimizeRequests ?idle =
     Some ((new_Elevator 1 5)\<lparr>Elevator.direction := UP,
             requests := [new_Request 0 2, new_Request 0 5, new_Request 0 9]\<rparr>)"
    by code_simp
  from optimizeRequests_sorts_by_direction [of ?idle UP] idle
  obtain q where q: "optimizeRequests ?idle = Some (?idle\<lparr>Elevator.direction := UP, requests := q\<rparr>)"
    "reordered UP (requests ?idle) q" 
    by blast
  from q(1) have "q = [new_Request 0 2, new_Request 0 5, new_Request 0 9]"
    unfolding 1 by (simp add: new_Elevator_def)
  with q(2) have 2: "reordered UP queue_5_2_9 [new_Request 0 2, new_Request 0 5, new_Request 0 9]"
    by simp
  have 3: "optimizeRequests ?down =
     Some ((new_Elevator 1 5)\<lparr>Elevator.direction := DOWN,
             requests := [new_Request 0 9, new_Request 0 5, new_Request 0 2]\<rparr>)"
    by code_simp
  have "Elevator.direction ?down = DOWN" by simp
  with optimizeRequests_sorts_by_direction [of ?down]
  obtain q' where q': "optimizeRequests ?down = Some (?down\<lparr>requests := q'\<rparr>)"
    "reordered DOWN (requests ?down) q'" 
    by blast
  from q'(1) have "q' = [new_Request 0 9, new_Request 0 5, new_Request 0 2]"
    unfolding 3 by (simp add: new_Elevator_def)
  with q'(2) have 4: "reordered DOWN queue_5_2_9 [new_Request 0 9, new_Request 0 5, new_Request 0 2]"
    by simp
  have "Elevator.direction (new_Elevator 1 5) = IDLE \<and> requests (new_Elevator 1 5) = []"
    by (simp add: new_Elevator_def)
  with optimizeRequests_sorts_by_direction [of "new_Elevator 1 5"]
  have 5: "optimizeRequests (new_Elevator 1 5) = Some (new_Elevator 1 5)" by blast
  from 1 2 4 5 show ?thesis by blast
qed

section \<open>Refusing a request at capacity\<close>

text \<open>
  Claim C3. On an elevator whose passenger count has reached its capacity limit,
  \<^verbatim>\<open>addRequest\<close> returns \<open>False\<close> as an ordinary result and leaves every field of the
  elevator as it was; all it does is write the line that the elevator is at capacity.
  This is what the call returns whenever it returns; it does return when the flag of
  the polling lock is down, and the flag is down in every state a run reaches.
\<close>

theorem addRequest_rejects_at_capacity:
  assumes "capacityLimit e \<le> passengers e"
  shows "(\<forall>b e'. addRequest r e = Some (b, e') \<longrightarrow>
            \<not> b \<and> e' = e\<lparr>console := console e @ [AtCapacity (ident e)]\<rparr>) \<and>
         (\<not> mutex e \<longrightarrow>
            addRequest r e = Some (False, e\<lparr>console := console e @ [AtCapacity (ident e)]\<rparr>)) \<and>
         (run acts (new_Elevator i cap) = Some e \<longrightarrow>
            addRequest r e = Some (False, e\<lparr>console := console e @ [AtCapacity (ident e)]\<rparr>))"
proof (intro conjI allI impI)
  assume "\<not> mutex e"
  then show "addRequest r e = Some (False, e\<lparr>console := console e @ [AtCapacity (ident e)]\<rparr>)"
    using assms by (simp add: addRequest_def await_mutex_free Let_def)
next
  assume "run acts (new_Elevator i cap) = Some e"
  with run_settled [OF settled_new, of acts i cap] have "\<not> mutex e"
    by (auto simp: settled_def)
  then show "addRequest r e = Some (False, e\<lparr>console := console e @ [AtCapacity (ident e)]\<rparr>)"
    using assms by (simp add: addRequest_def await_mutex_free Let_def)
next
  fix b e' assume a: "addRequest r e = Some (b, e')"
  then obtain e0 where "await_mutex e = Some e0"
    by (auto simp: addRequest_def split: option.splits)
  then have m: "\<not> mutex e" by (auto dest: await_mutex_Some)
  with a assms show "\<not> b" "e' = e\<lparr>console := console e @ [AtCapacity (ident e)]\<rparr>"
    by (auto simp: addRequest_def await_mutex_free Let_def)
qed

theorem addRequest_rejects_at_capacity_witness:
  "run [Submit 0 5] (new_Elevator 1 1) = Some (first_trip_started\<lparr>capacityLimit := 1\<rparr>) \<and>
   capacityLimit (first_trip_started\<lparr>capacityLimit := 1\<rparr>) \<le>
     passengers (first_trip_started\<lparr>capacityLimit := 1\<rparr>) \<and>
   addRequest (new_Request 0 3) (first_trip_started\<lparr>capacityLimit := 1\<rparr>) =
     Some (False, first_trip_started\<lparr>capacityLimit := 1,
             console := [PickedUp 1 0, Moving 1 0 5, AtCapacity 1]\<rparr>)"
proof -
  let ?e = "first_trip_started\<lparr>capacityLimit := 1\<rparr>"
  have r: "run [Submit 0 5] (new_Elevator 1 1) = Some ?e" by code_simp
  have full: "capacityLimit ?e \<le> passengers ?e" by (simp add: first_trip_started_def)
  from addRequest_rejects_at_capacity [OF full, of "new_Request 0 3" "[Submit 0 5]" 1 1] r
  have "addRequest (new_Request 0 3) ?e =
          Some (False, ?e\<lparr>console := console ?e @ [AtCapacity (ident ?e)]\<rparr>)"
    by blast
  then have "addRequest (new_Request 0 3) ?e =
     Some (False, first_trip_started\<lparr>capacityLimit := 1,
             console := [PickedUp 1 0, Moving 1 0 5, AtCapacity 1]\<rparr>)"
    by (simp add: first_trip_started_def)
  with r full show ?thesis by blast
qed

section \<open>Occupancy stays within the capacity\<close>

text \<open>
  Claim C4, as the program has it. An elevator built with a capacity limit of at
  least 0 never loops in \<^verbatim>\<open>addRequest\<close>, and in every state that submissions and
  resumptions of its drain process reach, its passenger count is at least 0 and at
  most its capacity limit. The drain process serves one request at a time, so the
  count is 0 or 1, and a request is only ever accepted by an elevator whose limit is at
  least 1.
\<close>

theorem occupancy_within_capacity:
  "0 \<le> cap \<Longrightarrow>
   \<exists>e. run acts (new_Elevator i cap) = Some e \<and> capacityLimit e = cap \<and>
       0 \<le> passengers e \<and> passengers e \<le> capacityLimit e"
proof -
  assume cap: "0 \<le> cap"
  from run_settled [OF settled_new, of acts i cap]
  obtain e where e: "run acts (new_Elevator i cap) = Some e" "settled e" "capacityLimit e = cap"
    by (auto simp: new_Elevator_def)
  with settled_occupancy [of e] cap show ?thesis by auto
qed

theorem occupancy_within_capacity_witness:
  "(0::int) \<le> 1 \<and>
   run [Submit 0 5, Submit 0 3] (new_Elevator 1 1) =
     Some (first_trip_started\<lparr>capacityLimit := 1,
             console := [PickedUp 1 0, Moving 1 0 5, AtCapacity 1]\<rparr>) \<and>
   (\<exists>e. run [Submit 0 5, Submit 0 3] (new_Elevator 1 1) = Some e \<and> capacityLimit e = 1 \<and>
       0 \<le> passengers e \<and> passengers e \<le> capacityLimit e)"
proof -
  have r: "run [Submit 0 5, Submit 0 3] (new_Elevator 1 1) =
     Some (first_trip_started\<lparr>capacityLimit := 1,
             console := [PickedUp 1 0, Moving 1 0 5, AtCapacity 1]\<rparr>)"
    by code_simp
  have c: "(0::int) \<le> 1" by simp
  from occupancy_within_capacity [OF c, of "[Submit 0 5, Submit 0 3]" 1] r c
  show ?thesis by blast
qed

text \<open>
  The claim without the condition on the capacity limit fails: an elevator built with
  the limit \<open>-1\<close> has 0 passengers, more than its limit, before any request.
\<close>

theorem occupancy_negative_capacity:
  "run [] (new_Elevator 1 (- 1)) = Some (new_Elevator 1 (- 1)) \<and>
   \<not> (0 \<le> passengers (new_Elevator 1 (- 1)) \<and>
      passengers (new_Elevator 1 (- 1)) \<le> capacityLimit (new_Elevator 1 (- 1)))"
  by (simp add: new_Elevator_def)

section \<open>The controller picks the nearest elevator with room\<close>

text \<open>
  Claim C1, as the program has it. \<^verbatim>\<open>findOptimalElevator\<close> returns position \<open>i\<close> exactly
  when the elevator there has room, its distance to the source floor of the request,
  computed in double arithmetic as line 136 computes it, is finite and no elevator with
  room has a smaller one, and every elevator with room at an earlier position has a
  strictly greater one: among equally near elevators the first in the array wins.
  Whenever every elevator is within \<open>2 ^ 53\<close> floors of the source floor, the computed
  distance is the absolute distance itself, and the position returned is that of the
  first of the nearest elevators with room. \<^verbatim>\<open>handleRequest\<close> passes the request to
  \<^verbatim>\<open>addRequest\<close> of the selected elevator and touches nothing else, and it returns
  whenever that elevator is in a state a run reaches and the request has a direction of
  its own. Three elevators with room at floors 0, 3 and 7 and a request from floor 2:
  the elevator at floor 3 (position 1) is selected.
\<close>

theorem handleRequest_selects_nearest:
  "(findOptimalElevator es r = Some i \<longleftrightarrow> first_nearest es r i) \<and>
   ((\<forall>e \<in> set es. \<bar>currentFloor e - sourceFloor r\<bar> \<le> 2 ^ 53) \<longrightarrow>
      (findOptimalElevator es r = Some i \<longleftrightarrow> first_nearest_exact es r i)) \<and>
   (findOptimalElevator (elevators c) r = Some i \<and> handleRequest r c = Some c' \<longrightarrow>
      (\<exists>accepted. addRequest r (elevators c ! i) = Some (accepted, elevators c' ! i)) \<and>
      length (elevators c') = length (elevators c) \<and>
      (\<forall>j < length (elevators c). j \<noteq> i \<longrightarrow> elevators c' ! j = elevators c ! j) \<and>
      controller_console c' = controller_console c) \<and>
   (findOptimalElevator (elevators c) r = Some i \<and> settled (elevators c ! i) \<and>
    Request.direction r \<noteq> IDLE \<longrightarrow>
      (\<exists>accepted e'. addRequest r (elevators c ! i) = Some (accepted, e') \<and>
         handleRequest r c = Some (c\<lparr>elevators := (elevators c)[i := e']\<rparr>))) \<and>
   (eligible e1 \<and> eligible e2 \<and> eligible e3 \<and>
    currentFloor e1 = 0 \<and> currentFloor e2 = 3 \<and> currentFloor e3 = 7 \<and> sourceFloor r = 2 \<longrightarrow>
      findOptimalElevator [e1, e2, e3] r = Some 1)"
proof (intro conjI impI)
  show "(findOptimalElevator es r = Some i) = first_nearest es r i"
    by (rule findOptimalElevator_first_nearest)
next
  assume "\<forall>e \<in> set es. \<bar>currentFloor e - sourceFloor r\<bar> \<le> 2 ^ 53"
  then show "(findOptimalElevator es r = Some i) = first_nearest_exact es r i"
    by (simp only: findOptimalElevator_first_nearest first_nearest_exact_iff)
next
  assume a: "findOptimalElevator (elevators c) r = Some i \<and> handleRequest r c = Some c'"
  then have i: "i < length (elevators c)"
    by (simp add: findOptimalElevator_first_nearest first_nearest_def)
  from a obtain accepted e' where
    add: "addRequest r (elevators c ! i) = Some (accepted, e')"
    and c': "c' = c\<lparr>elevators := (elevators c)[i := e']\<rparr>"
    by (auto simp: handleRequest_def split: option.splits)
  show "\<exists>accepted. addRequest r (elevators c ! i) = Some (accepted, elevators c' ! i)"
    using add c' i by simp
  show "length (elevators c') = length (elevators c)" using c' by simp
  show "\<forall>j < length (elevators c). j \<noteq> i \<longrightarrow> elevators c' ! j = elevators c ! j"
    using c' by simp
  show "controller_console c' = controller_console c" using c' by simp
next
  assume a: "findOptimalElevator (elevators c) r = Some i \<and> settled (elevators c ! i) \<and>
    Request.direction r \<noteq> IDLE"
  with settled_addRequest [of "elevators c ! i" r]
  obtain accepted e' where "addRequest r (elevators c ! i) = Some (accepted, e')" by blast
  with a show "\<exists>accepted e'. addRequest r (elevators c ! i) = Some (accepted, e') \<and>
         handleRequest r c = Some (c\<lparr>elevators := (elevators c)[i := e']\<rparr>)"
    by (simp add: handleRequest_def)
next
  assume a: "eligible e1 \<and> eligible e2 \<and> eligible e3 \<and>
    currentFloor e1 = 0 \<and> currentFloor e2 = 3 \<and> currentFloor e3 = 7 \<and> sourceFloor r = 2"
  have "js_distance 0 2 = enat 2" "js_distance 3 2 = enat 1" "js_distance 7 2 = enat 5"
    by (simp_all add: js_distance_exact)
  with a show "findOptimalElevator [e1, e2, e3] r = Some 1"
    by (simp add: findOptimalElevator_def eligible_def)
qed

theorem handleRequest_selects_nearest_witness:
  "findOptimalElevator three_cars (new_Request 2 6) = Some 1 \<and>
   first_nearest three_cars (new_Request 2 6) 1 \<and>
   first_nearest_exact three_cars (new_Request 2 6) 1 \<and>
   settled (three_cars ! 1) \<and>
   handleRequest (new_Request 2 6) \<lparr> elevators = three_cars, controller_console = [] \<rparr> =
     Some \<lparr> elevators = three_cars [1 :=
               \<lparr> ident = 2, capacityLimit = 2, currentFloor = 3, direction = UP, requests = [],
                 passengers = 0, isMoving = True, mutex = False,
                 console = [Moving 2 3 2], pending = SourceTimer (new_Request 2 6) \<rparr>],
            controller_console = [] \<rparr> \<and>
   addRequest (new_Request 2 6) (three_cars ! 1) =
     Some (True,
        \<lparr> ident = 2, capacityLimit = 2, currentFloor = 3, direction = UP, requests = [],
          passengers = 0, isMoving = True, mutex = False,
          console = [Moving 2 3 2], pending = SourceTimer (new_Request 2 6) \<rparr>)"
proof -
  let ?r = "new_Request 2 6"
  let ?c = "\<lparr> elevators = three_cars, controller_console = [] \<rparr>"
  let ?e' = "\<lparr> ident = 2, capacityLimit = 2, currentFloor = 3, direction = UP, requests = [],
                 passengers = 0, isMoving = True, mutex = False,
                 console = [Moving 2 3 2], pending = SourceTimer (new_Request 2 6) \<rparr>"
  let ?c' = "\<lparr> elevators = three_cars [1 := ?e'], controller_console = [] \<rparr>"
  note T = handleRequest_selects_nearest [of three_cars ?r 1 ?c ?c'
      "three_cars ! 0" "three_cars ! 1" "three_cars ! 2"]
  have el: "eligible (three_cars ! 0) \<and> eligible (three_cars ! 1) \<and> eligible (three_cars ! 2) \<and>
    currentFloor (three_cars ! 0) = 0 \<and> currentFloor (three_cars ! 1) = 3 \<and>
    currentFloor (three_cars ! 2) = 7 \<and> sourceFloor ?r = 2"
    by (simp add: three_cars_def eligible_def new_Elevator_def new_Request_def)
  have cars: "[three_cars ! 0, three_cars ! 1, three_cars ! 2] = three_cars"
    by (simp add: three_cars_def)
  from T el have f: "findOptimalElevator three_cars ?r = Some 1"
    unfolding cars by blast
  with T have n: "first_nearest three_cars ?r 1" by blast
  have near: "\<forall>e \<in> set three_cars. \<bar>currentFloor e - sourceFloor ?r\<bar> \<le> 2 ^ 53"
    by (simp add: three_cars_def new_Elevator_def new_Request_def)
  with T f have x: "first_nearest_exact three_cars ?r 1" by blast
  have s: "settled (three_cars ! 1)"
    by (simp add: three_cars_def new_Elevator_def settled_def held_def ascending_def)
  have d: "Request.direction ?r \<noteq> IDLE" by (simp add: new_Request_def)
  have a: "addRequest ?r (three_cars ! 1) = Some (True, ?e')" by code_simp
  from T [THEN conjunct2, THEN conjunct2, THEN conjunct2, THEN conjunct1] f s d
  obtain accepted e' where
    r: "addRequest ?r (elevators ?c ! 1) = Some (accepted, e')"
       "handleRequest ?r ?c = Some (?c\<lparr>elevators := (elevators ?c)[1 := e']\<rparr>)"
    by auto
  from r(1) a have "e' = ?e'" by simp
  with r(2) have h: "handleRequest ?r ?c = Some ?c'" by simp
  from f n x s h a show ?thesis by blast
qed

text \<open>
  The claim with the absolute distance itself fails where the subtraction of line 136
  rounds. Two elevators with room at floors 0 and 1 and a request from floor
  \<open>2 ^ 53 + 4\<close>: the elevator at floor 1 is nearer, but its distance \<open>2 ^ 53 + 3\<close> is
  rounded to \<open>2 ^ 53 + 4\<close>, the distance of the elevator at floor 0, and the elevator at
  floor 0 (position 0), the first of the two, is selected.
\<close>

theorem nearest_lost_to_rounding:
  "findOptimalElevator two_cars far_request = Some 0 \<and>
   eligible (two_cars ! 1) \<and>
   \<bar>currentFloor (two_cars ! 1) - sourceFloor far_request\<bar> <
     \<bar>currentFloor (two_cars ! 0) - sourceFloor far_request\<bar> \<and>
   \<not> first_nearest_exact two_cars far_request 0"
proof -
  have "fl 9007199254740996 = 9007199254740996" "fl 9007199254740995 = 9007199254740996"
    by code_simp+
  then have d: "js_distance 0 9007199254740996 = enat 9007199254740996"
    "js_distance 1 9007199254740996 = enat 9007199254740996"
    by (simp_all add: js_distance_def)
  have f: "findOptimalElevator two_cars far_request = Some 0"
    by (simp add: findOptimalElevator_def two_cars_def far_request_def new_Elevator_def
        new_Request_def d)
  have e: "eligible (two_cars ! 1)"
    by (simp add: two_cars_def eligible_def new_Elevator_def)
  have l: "\<bar>currentFloor (two_cars ! 1) - sourceFloor far_request\<bar> <
     \<bar>currentFloor (two_cars ! 0) - sourceFloor far_request\<bar>"
    by (simp add: two_cars_def far_request_def new_Elevator_def new_Request_def)
  have "(1::nat) < length two_cars" by (simp add: two_cars_def)
  with e l have "\<not> first_nearest_exact two_cars far_request 0"
    unfolding first_nearest_exact_def by (meson leD)
  with f e l show ?thesis by blast
qed

section \<open>Auxiliary facts: travelling, one resumption per floor\<close>

lemma arrivals_same: "arrivals i a a = []"
  by (simp add: arrivals_def)

lemma arrivals_up: "a < b \<Longrightarrow> arrivals i a b = Arrived i (a + 1) # arrivals i (a + 1) b"
  by (simp add: arrivals_def upto_rec1)

lemma arrivals_down: "b < a \<Longrightarrow> arrivals i a b = Arrived i (a - 1) # arrivals i (a - 1) b"
proof -
  assume "b < a"
  then have "[b..a - 1] = [b..a - 1 - 1] @ [a - 1]" by (intro upto_rec2) simp
  then show ?thesis using \<open>b < a\<close>
    by (auto simp: arrivals_def)
qed

lemma unit_step_toward:
  assumes "safe_floor (currentFloor e)" "safe_floor target" "currentFloor e \<noteq> target"
  shows "currentFloor (unit_step target e) =
           (if currentFloor e < target then currentFloor e + 1 else currentFloor e - 1) \<and>
         \<bar>currentFloor (unit_step target e) - target\<bar> = \<bar>currentFloor e - target\<bar> - 1 \<and>
         safe_floor (currentFloor (unit_step target e))"
proof (cases "currentFloor e < target")
  case True
  with assms have "\<bar>currentFloor e + 1\<bar> \<le> 2 ^ 53" by (simp add: safe_floor_def)
  with True fl_exact [of "currentFloor e + 1"] show ?thesis
    by (simp add: unit_step_def Let_def safe_floor_def)
next
  case False
  with assms have "\<bar>currentFloor e - 1\<bar> \<le> 2 ^ 53" by (simp add: safe_floor_def)
  with False assms(3) fl_exact [of "currentFloor e - 1"] show ?thesis
    by (simp add: unit_step_def Let_def safe_floor_def)
qed

lemma unit_step_explicit:
  assumes "safe_floor (currentFloor e)" "safe_floor target" "currentFloor e \<noteq> target"
  shows "unit_step target e =
     e\<lparr>currentFloor := (if currentFloor e < target then currentFloor e + 1 else currentFloor e - 1),
       console := console e @
         [Arrived (ident e) (if currentFloor e < target then currentFloor e + 1 else currentFloor e - 1)]\<rparr>"
  using unit_step_toward [OF assms] by (cases e) (auto simp: unit_step_def Let_def)

lemma move_loop_explicit:
  "nat \<bar>currentFloor e - target\<bar> = n \<Longrightarrow> safe_floor (currentFloor e) \<Longrightarrow> safe_floor target \<Longrightarrow>
   move_loop target e =
     Some (e\<lparr>currentFloor := target,
             console := console e @ arrivals (ident e) (currentFloor e) target\<rparr>)"
proof (induction n arbitrary: e)
  case 0
  then have "currentFloor e = target" by simp
  then show ?case by (subst move_loop.simps, cases e) (simp add: arrivals_same)
next
  case (Suc n)
  let ?e' = "unit_step target e"
  from Suc.prems(1) have ne: "currentFloor e \<noteq> target" by auto
  note u = unit_step_toward [OF Suc.prems(2,3) ne]
  note x = unit_step_explicit [OF Suc.prems(2,3) ne]
  from u [THEN conjunct2, THEN conjunct1] Suc.prems(1)
  have d: "nat \<bar>currentFloor ?e' - target\<bar> = n" by linarith
  from u have s: "safe_floor (currentFloor ?e')" by blast
  have "move_loop target e = move_loop target ?e'"
    using ne by (subst move_loop.simps) simp
  also have "\<dots> = Some (?e'\<lparr>currentFloor := target,
             console := console ?e' @ arrivals (ident ?e') (currentFloor ?e') target\<rparr>)"
    by (rule Suc.IH [OF d s Suc.prems(3)])
  also have "?e'\<lparr>currentFloor := target,
             console := console ?e' @ arrivals (ident ?e') (currentFloor ?e') target\<rparr> =
     e\<lparr>currentFloor := target,
       console := console e @ arrivals (ident e) (currentFloor e) target\<rparr>"
    using ne unfolding x by (auto simp: arrivals_up arrivals_down)
  finally show ?case .
qed

lemma move_loop_funpow:
  "nat \<bar>currentFloor e - target\<bar> = n \<Longrightarrow> safe_floor (currentFloor e) \<Longrightarrow> safe_floor target \<Longrightarrow>
   move_loop target e = Some ((unit_step target ^^ n) e)"
proof (induction n arbitrary: e)
  case 0
  then have "currentFloor e = target" by simp
  then show ?case by (subst move_loop.simps) simp
next
  case (Suc n)
  let ?e' = "unit_step target e"
  from Suc.prems(1) have ne: "currentFloor e \<noteq> target" by auto
  note u = unit_step_toward [OF Suc.prems(2,3) ne]
  from u [THEN conjunct2, THEN conjunct1] Suc.prems(1)
  have d: "nat \<bar>currentFloor ?e' - target\<bar> = n" by linarith
  from u have s: "safe_floor (currentFloor ?e')" by blast
  have "move_loop target e = move_loop target ?e'"
    using ne by (subst move_loop.simps) simp
  also have "\<dots> = Some ((unit_step target ^^ n) ?e')"
    by (rule Suc.IH [OF d s Suc.prems(3)])
  finally show ?case by (simp add: funpow_swap1)
qed

lemma travel_resume:
  assumes timer: "\<And>x. pending x = T \<Longrightarrow> resume x = timer_fired target T A x"
    and safe: "safe_floor target"
  shows "pending e = T \<Longrightarrow> nat \<bar>currentFloor e - target\<bar> = n \<Longrightarrow> currentFloor e \<noteq> target \<Longrightarrow>
         safe_floor (currentFloor e) \<Longrightarrow>
         (resume ^^ n) e =
           e\<lparr>currentFloor := target,
             console := console e @ arrivals (ident e) (currentFloor e) target,
             pending := A\<rparr>"
proof (induction n arbitrary: e)
  case 0
  then show ?case by simp
next
  case (Suc n)
  let ?e' = "unit_step target e"
  note u = unit_step_toward [OF Suc.prems(4) safe Suc.prems(3)]
  note x = unit_step_explicit [OF Suc.prems(4) safe Suc.prems(3)]
  from u [THEN conjunct2, THEN conjunct1] Suc.prems(2)
  have d: "nat \<bar>currentFloor ?e' - target\<bar> = n" by linarith
  show ?case
  proof (cases "currentFloor ?e' = target")
    case True
    with d have "n = 0" by simp
    moreover have "resume e = ?e'\<lparr>pending := A\<rparr>"
      using True Suc.prems by (simp add: timer timer_fired_def)
    moreover have "arrivals (ident e) (currentFloor e) target = [Arrived (ident e) target]"
    proof (cases "currentFloor e < target")
      case up: True
      with True u have "currentFloor e + 1 = target" by simp
      with arrivals_up [OF up, of "ident e"] show ?thesis by (simp add: arrivals_same)
    next
      case down: False
      with True u have t: "currentFloor e - 1 = target" by simp
      with down Suc.prems(3) have "target < currentFloor e" by simp
      from arrivals_down [OF this, of "ident e"] t show ?thesis by (simp add: arrivals_same)
    qed
    ultimately show ?thesis using True u [THEN conjunct1]
      unfolding x by simp
  next
    case False
    have r: "resume e = ?e'\<lparr>pending := T\<rparr>"
      using False Suc.prems by (simp add: timer timer_fired_def)
    have "(resume ^^ n) (?e'\<lparr>pending := T\<rparr>) =
        (?e'\<lparr>pending := T\<rparr>)\<lparr>currentFloor := target,
          console := console (?e'\<lparr>pending := T\<rparr>) @
            arrivals (ident (?e'\<lparr>pending := T\<rparr>)) (currentFloor (?e'\<lparr>pending := T\<rparr>)) target,
          pending := A\<rparr>"
      using d False u [THEN conjunct2, THEN conjunct2] by (intro Suc.IH) simp_all
    then have "(resume ^^ Suc n) e =
        (?e'\<lparr>pending := T\<rparr>)\<lparr>currentFloor := target,
          console := console (?e'\<lparr>pending := T\<rparr>) @
            arrivals (ident (?e'\<lparr>pending := T\<rparr>)) (currentFloor (?e'\<lparr>pending := T\<rparr>)) target,
          pending := A\<rparr>"
      by (simp add: funpow_swap1 r)
    then show ?thesis using Suc.prems(3)
      unfolding x by (auto simp: arrivals_up arrivals_down)
  qed
qed

lemma call_then_resumes:
  assumes timer: "\<And>x. pending x = T \<Longrightarrow> resume x = timer_fired target T A x"
    and safe: "safe_floor target" "safe_floor (currentFloor e)"
  shows "(resume ^^ nat \<bar>currentFloor e - target\<bar>) (call_moveToFloor target T A e) =
           (travel target e)\<lparr>pending := A\<rparr>"
proof (cases "currentFloor e = target")
  case True
  then show ?thesis
    by (cases e) (simp add: call_moveToFloor_def travel_def Let_def arrivals_same)
next
  case False
  let ?t = "e\<lparr>console := console e @ [Moving (ident e) (currentFloor e) target], pending := T\<rparr>"
  from False have c: "call_moveToFloor target T A e = ?t"
    by (simp add: call_moveToFloor_def Let_def)
  have "(resume ^^ nat \<bar>currentFloor ?t - target\<bar>) ?t =
      ?t\<lparr>currentFloor := target,
         console := console ?t @ arrivals (ident ?t) (currentFloor ?t) target,
         pending := A\<rparr>"
    using False safe by (intro travel_resume [OF timer]) simp_all
  then show ?thesis unfolding c by (cases e) (simp add: travel_def)
qed

lemma moveToFloor_travel:
  "safe_floor (currentFloor e) \<Longrightarrow> safe_floor target \<Longrightarrow>
   moveToFloor target e = Some (travel target e)"
  unfolding moveToFloor_def travel_def
  by (subst move_loop_explicit [OF refl]) simp_all

lemma move_loop_stuck:
  assumes "move_loop target e = Some e'"
  shows "\<not> (- (2 ^ 53) \<le> currentFloor e \<and> currentFloor e \<le> 2 ^ 53 \<and> 2 ^ 53 < target)"
proof (rule move_loop.raw_induct [where P = "\<lambda>t x y.
    \<not> (- (2 ^ 53) \<le> currentFloor x \<and> currentFloor x \<le> 2 ^ 53 \<and> 2 ^ 53 < t)", OF _ assms])
  fix f t x y
  assume IH: "\<And>t x y. f t x = Some y \<Longrightarrow>
      \<not> (- (2 ^ 53) \<le> currentFloor x \<and> currentFloor x \<le> 2 ^ 53 \<and> 2 ^ 53 < t)"
    and step: "(if currentFloor x \<noteq> t then f t (unit_step t x) else Some x) = Some y"
  show "\<not> (- (2 ^ 53) \<le> currentFloor x \<and> currentFloor x \<le> 2 ^ 53 \<and> 2 ^ 53 < t)"
  proof
    assume a: "- (2 ^ 53) \<le> currentFloor x \<and> currentFloor x \<le> 2 ^ 53 \<and> 2 ^ 53 < t"
    then have "currentFloor x \<noteq> t" by simp
    with step have "f t (unit_step t x) = Some y" by simp
    from IH [OF this] a have n: "\<not> (- (2 ^ 53) \<le> currentFloor (unit_step t x) \<and>
        currentFloor (unit_step t x) \<le> 2 ^ 53)" by blast
    from a have c: "currentFloor (unit_step t x) = fl (currentFloor x + 1)"
      by (simp add: unit_step_def Let_def)
    show False
    proof (cases "currentFloor x = 2 ^ 53")
      case True
      with c fl_above_2_53 n show False by simp
    next
      case False
      with a have b: "\<bar>currentFloor x + 1\<bar> \<le> 2 ^ 53" by arith
      from fl_exact [OF b] c have "currentFloor (unit_step t x) = currentFloor x + 1" by simp
      with n a b show False by arith
    qed
  qed
qed

section \<open>Floor-by-floor motion reaches its target\<close>

text \<open>
  Claim C9, as the program has it. Let the floor of the elevator and the target floor
  be at most \<open>2 ^ 53\<close> in magnitude, the floors on which the program's additions are
  exact. While the elevator is not at the target floor, a unit step moves it by exactly
  one floor towards the target, up when the target is above and down otherwise, and
  the distance to the target drops by one. \<^verbatim>\<open>moveToFloor\<close> returns: it is the departure
  line followed by as many unit steps as there are floors between the elevator and the
  target, it leaves the elevator at the target floor, and it writes one arrival line
  per floor. The same holds of the call as the drain process makes it, one unit step
  per timer: after that many resumptions the drain process is parked behind the
  returned call, with the elevator at the target floor.
\<close>

theorem moveToFloor_reaches_target:
  assumes "safe_floor (currentFloor e)" and "safe_floor target"
  shows
  "(currentFloor e \<noteq> target \<longrightarrow>
      currentFloor (unit_step target e) =
        (if currentFloor e < target then currentFloor e + 1 else currentFloor e - 1) \<and>
      \<bar>currentFloor (unit_step target e) - target\<bar> = \<bar>currentFloor e - target\<bar> - 1) \<and>
   (\<exists>e'. moveToFloor target e = Some e' \<and>
      currentFloor e' = target \<and>
      console e' =
        console e @ Moving (ident e) (currentFloor e) target #
          arrivals (ident e) (currentFloor e) target \<and>
      e' = (unit_step target ^^ nat \<bar>currentFloor e - target\<bar>)
             (e\<lparr>console := console e @ [Moving (ident e) (currentFloor e) target]\<rparr>) \<and>
      (target = sourceFloor r \<longrightarrow>
         (resume ^^ nat \<bar>currentFloor e - target\<bar>)
            (call_moveToFloor target (SourceTimer r) (SourceArrived r) e) =
         e'\<lparr>pending := SourceArrived r\<rparr>) \<and>
      (target = destinationFloor r \<longrightarrow>
         (resume ^^ nat \<bar>currentFloor e - target\<bar>)
            (call_moveToFloor target (DestTimer r) (DestArrived r) e) =
         e'\<lparr>pending := DestArrived r\<rparr>))"
proof (intro conjI impI)
  assume "currentFloor e \<noteq> target"
  from unit_step_toward [OF assms this]
  show "currentFloor (unit_step target e) =
        (if currentFloor e < target then currentFloor e + 1 else currentFloor e - 1)"
    and "\<bar>currentFloor (unit_step target e) - target\<bar> = \<bar>currentFloor e - target\<bar> - 1"
    by blast+
next
  let ?e0 = "e\<lparr>console := console e @ [Moving (ident e) (currentFloor e) target]\<rparr>"
  have m: "moveToFloor target e = Some (travel target e)"
    using assms by (rule moveToFloor_travel)
  have "move_loop target ?e0 = Some ((unit_step target ^^ nat \<bar>currentFloor e - target\<bar>) ?e0)"
    using assms by (intro move_loop_funpow) simp_all
  with m have f: "travel target e = (unit_step target ^^ nat \<bar>currentFloor e - target\<bar>) ?e0"
    by (simp add: moveToFloor_def)
  have s: "(resume ^^ nat \<bar>currentFloor e - target\<bar>)
            (call_moveToFloor target (SourceTimer r) (SourceArrived r) e) =
         (travel target e)\<lparr>pending := SourceArrived r\<rparr>" if "target = sourceFloor r"
    using assms that by (intro call_then_resumes) (simp_all add: resume_def)
  have d: "(resume ^^ nat \<bar>currentFloor e - target\<bar>)
            (call_moveToFloor target (DestTimer r) (DestArrived r) e) =
         (travel target e)\<lparr>pending := DestArrived r\<rparr>" if "target = destinationFloor r"
    using assms that by (intro call_then_resumes) (simp_all add: resume_def)
  have c: "currentFloor (travel target e) = target"
    "console (travel target e) =
        console e @ Moving (ident e) (currentFloor e) target #
          arrivals (ident e) (currentFloor e) target"
    by (simp_all add: travel_def)
  from m c f s d
  show "\<exists>e'. moveToFloor target e = Some e' \<and>
      currentFloor e' = target \<and>
      console e' =
        console e @ Moving (ident e) (currentFloor e) target #
          arrivals (ident e) (currentFloor e) target \<and>
      e' = (unit_step target ^^ nat \<bar>currentFloor e - target\<bar>)
             (e\<lparr>console := console e @ [Moving (ident e) (currentFloor e) target]\<rparr>) \<and>
      (target = sourceFloor r \<longrightarrow>
         (resume ^^ nat \<bar>currentFloor e - target\<bar>)
            (call_moveToFloor target (SourceTimer r) (SourceArrived r) e) =
         e'\<lparr>pending := SourceArrived r\<rparr>) \<and>
      (target = destinationFloor r \<longrightarrow>
         (resume ^^ nat \<bar>currentFloor e - target\<bar>)
            (call_moveToFloor target (DestTimer r) (DestArrived r) e) =
         e'\<lparr>pending := DestArrived r\<rparr>)"
    by (intro exI [of _ "travel target e"]) blast
qed

theorem moveToFloor_reaches_target_witness:
  "safe_floor (currentFloor (new_Elevator 1 5)) \<and> safe_floor 3 \<and>
   currentFloor (new_Elevator 1 5) \<noteq> 3 \<and>
   currentFloor (unit_step 3 (new_Elevator 1 5)) = 1 \<and>
   moveToFloor 3 (new_Elevator 1 5) =
     Some ((new_Elevator 1 5)
       \<lparr>currentFloor := 3,
        console := [Moving 1 0 3, Arrived 1 1, Arrived 1 2, Arrived 1 3]\<rparr>) \<and>
   (resume ^^ 3)
     (call_moveToFloor 3 (DestTimer (new_Request 0 3)) (DestArrived (new_Request 0 3))
        (new_Elevator 1 5)) =
     (new_Elevator 1 5)
       \<lparr>currentFloor := 3,
        console := [Moving 1 0 3, Arrived 1 1, Arrived 1 2, Arrived 1 3],
        pending := DestArrived (new_Request 0 3)\<rparr> \<and>
   (resume ^^ 2)
     (call_moveToFloor 3 (SourceTimer (new_Request 3 10)) (SourceArrived (new_Request 3 10))
        ((new_Elevator 1 5)\<lparr>currentFloor := 5\<rparr>)) =
     (new_Elevator 1 5)
       \<lparr>currentFloor := 3,
        console := [Moving 1 5 3, Arrived 1 4, Arrived 1 3],
        pending := SourceArrived (new_Request 3 10)\<rparr>"
proof -
  let ?e = "new_Elevator 1 5"
  let ?u = "(new_Elevator 1 5)\<lparr>currentFloor := 5\<rparr>"
  let ?E = "(new_Elevator 1 5)
       \<lparr>currentFloor := 3,
        console := [Moving 1 0 3, Arrived 1 1, Arrived 1 2, Arrived 1 3]\<rparr>"
  let ?U = "(new_Elevator 1 5)
       \<lparr>currentFloor := 3, console := [Moving 1 5 3, Arrived 1 4, Arrived 1 3]\<rparr>"
  have s: "safe_floor (currentFloor ?e)" "safe_floor 3" "safe_floor (currentFloor ?u)"
    by (simp_all add: safe_floor_def new_Elevator_def)
  note A = moveToFloor_reaches_target [OF s(1,2), of "new_Request 0 3"]
  note B = moveToFloor_reaches_target [OF s(3,2), of "new_Request 3 10"]
  have a0: "currentFloor ?e \<noteq> 3" by (simp add: new_Elevator_def)
  from A a0 have a1: "currentFloor (unit_step 3 ?e) = 1" by (simp add: new_Elevator_def)
  have a2: "moveToFloor 3 ?e = Some ?E" by code_simp
  have b2: "moveToFloor 3 ?u = Some ?U" by code_simp
  have n: "nat \<bar>currentFloor ?e - 3\<bar> = 3" "nat \<bar>currentFloor ?u - 3\<bar> = 2"
    "3 = destinationFloor (new_Request 0 3)" "3 = sourceFloor (new_Request 3 10)"
    by (simp_all add: new_Elevator_def new_Request_def)
  from A [THEN conjunct2] a2 n(3)
  have "(resume ^^ nat \<bar>currentFloor ?e - 3\<bar>)
     (call_moveToFloor 3 (DestTimer (new_Request 0 3)) (DestArrived (new_Request 0 3)) ?e) =
     ?E\<lparr>pending := DestArrived (new_Request 0 3)\<rparr>"
    by auto
  then have a3: "(resume ^^ 3)
     (call_moveToFloor 3 (DestTimer (new_Request 0 3)) (DestArrived (new_Request 0 3)) ?e) =
     ?E\<lparr>pending := DestArrived (new_Request 0 3)\<rparr>"
    unfolding n(1) .
  from B [THEN conjunct2] b2 n(4)
  have "(resume ^^ nat \<bar>currentFloor ?u - 3\<bar>)
     (call_moveToFloor 3 (SourceTimer (new_Request 3 10)) (SourceArrived (new_Request 3 10)) ?u) =
     ?U\<lparr>pending := SourceArrived (new_Request 3 10)\<rparr>"
    by auto
  then have b3: "(resume ^^ 2)
     (call_moveToFloor 3 (SourceTimer (new_Request 3 10)) (SourceArrived (new_Request 3 10)) ?u) =
     ?U\<lparr>pending := SourceArrived (new_Request 3 10)\<rparr>"
    unfolding n(2) .
  from s(1,2) a0 a1 a2 a3 b3 show ?thesis by simp
qed

text \<open>
  The claim for every integer target floor fails beyond \<open>2 ^ 53 = 9007199254740992\<close>.
  At that floor \<^verbatim>\<open>currentFloor += 1\<close> gives \<open>2 ^ 53\<close> again, so an elevator that
  travels from floor 0 to floor \<open>2 ^ 53 + 2\<close> stays at \<open>2 ^ 53\<close>: the unit step changes
  nothing, the distance no longer drops, and \<^verbatim>\<open>moveToFloor\<close> never returns.
\<close>

theorem moveToFloor_stuck_beyond_2_53:
  "moveToFloor far_floor (new_Elevator 1 5) = None \<and>
   currentFloor
     (unit_step far_floor ((new_Elevator 1 5)\<lparr>currentFloor := 9007199254740992\<rparr>)) =
     9007199254740992"
proof -
  have "moveToFloor far_floor (new_Elevator 1 5) \<noteq> Some e'" for e'
  proof
    assume "moveToFloor far_floor (new_Elevator 1 5) = Some e'"
    from move_loop_stuck [OF this [unfolded moveToFloor_def]] show False
      by (simp add: new_Elevator_def far_floor_def)
  qed
  then have "moveToFloor far_floor (new_Elevator 1 5) = None"
    by (cases "moveToFloor far_floor (new_Elevator 1 5)") auto
  moreover have "currentFloor
     (unit_step far_floor ((new_Elevator 1 5)\<lparr>currentFloor := 9007199254740992\<rparr>)) =
     9007199254740992"
    by code_simp
  ultimately show ?thesis by blast
qed

section \<open>Auxiliary facts: the drain process left alone\<close>













section \<open>The drain process serves the queue in order\<close>




section \<open>The order of the queue and the direction\<close>

lemma queue_matches_sorted_for:
  "queue_matches_direction e = sorted_for (Elevator.direction e) (requests e)"
  by (simp add: queue_matches_direction_def sorted_for_def)

lemma sorted_for_tl: "sorted_for d q \<Longrightarrow> sorted_for d (tl q)"
  by (auto simp: sorted_for_def ascending_tl descending_tl)

lemma sorted_for_Nil: "sorted_for d []"
  by (simp add: sorted_for_def ascending_def descending_def)

lemma resume_not_dropoff:
  "\<not> dropoff_next e \<Longrightarrow>
   requests (resume e) = requests e \<and> Elevator.direction (resume e) = Elevator.direction e"
  by (auto simp: dropoff_next_def resume_def timer_fired_def unit_step_def pickup_def
      call_moveToFloor_def Let_def split: Pending.splits)

lemma resume_dropoff:
  "dropoff_next e \<Longrightarrow>
   requests (resume e) = tl (requests e) \<and>
   Elevator.direction (resume e) =
     (if requests e = [] then IDLE else Request.direction (hd (requests e)))"
  by (auto simp: dropoff_next_def resume_def dropoff_def loop_head_def pickup_def
      call_moveToFloor_def Let_def split: Pending.splits)

lemma resume_sorted_for: "sorted_for d (requests e) \<Longrightarrow> sorted_for d (requests (resume e))"
  using resume_not_dropoff [of e] resume_dropoff [of e] sorted_for_tl [of d "requests e"]
  by (cases "dropoff_next e") simp_all

lemma resume_keeps_order:
  assumes "queue_matches_direction e"
    and "Elevator.direction (resume e) = Elevator.direction e \<or> requests (resume e) = []"
  shows "queue_matches_direction (resume e)"
proof (cases "requests (resume e) = []")
  case True
  then show ?thesis by (simp add: queue_matches_sorted_for sorted_for_Nil)
next
  case False
  with assms(2) have "Elevator.direction (resume e) = Elevator.direction e" by simp
  with assms(1) resume_sorted_for [of "Elevator.direction e" e] show ?thesis
    by (simp add: queue_matches_sorted_for)
qed

lemma addRequest_rejected:
  assumes "addRequest r e = Some (False, e')"
  shows "requests e' = requests e"
proof -
  from assms obtain e0 where "await_mutex e = Some e0"
    by (auto simp: addRequest_def split: option.splits)
  then have "await_mutex e = Some e" by (auto dest: await_mutex_Some)
  with assms show ?thesis
    by (auto simp: addRequest_def Let_def split: if_splits option.splits)
qed

lemma run_last_reorder:
  "settled e \<Longrightarrow> sorted_for d (requests e) \<Longrightarrow>
   \<exists>e'. run acts e = Some e' \<and> settled e' \<and> sorted_for (last_reorder acts e d) (requests e')"
proof (induction acts arbitrary: e d)
  case Nil
  then show ?case by simp
next
  case (Cons a acts)
  show ?case
  proof (cases a)
    case (Submit src dst)
    have "Request.direction (new_Request src dst) \<noteq> IDLE" by (simp add: new_Request_def)
    from settled_addRequest [OF Cons.prems(1) this]
    obtain b e1 where 1: "addRequest (new_Request src dst) e = Some (b, e1)" "settled e1"
      "b \<longrightarrow> queue_matches_direction e1" by blast
    have "sorted_for (if b then Elevator.direction e1 else d) (requests e1)"
    proof (cases b)
      case True
      with 1(3) show ?thesis by (simp add: queue_matches_sorted_for)
    next
      case False
      with 1(1) addRequest_rejected [of "new_Request src dst" e e1] Cons.prems(2)
      show ?thesis by simp
    qed
    from Cons.IH [OF 1(2) this] 1(1) Submit show ?thesis by simp
  next
    case Resume
    from Cons.IH [OF settled_resume [OF Cons.prems(1)] resume_sorted_for [OF Cons.prems(2)]]
      Resume show ?thesis by simp
  qed
qed

text \<open>
  Claim C5, as the program has it. In every state that submissions and resumptions
  reach, the queue is sorted by destination floor in the order of the direction the
  elevator had right after its most recent accepted \<^verbatim>\<open>addRequest\<close>, the last time the
  queue was sorted; so it is in the order the current direction asks for whenever that
  is still the direction of the elevator. Right after every accepted \<^verbatim>\<open>addRequest\<close>
  the queue is in the order of the current direction. A resumption of the drain process
  other than a drop-off changes neither the queue nor the direction. A drop-off sets the
  direction to that of the head request, or to \<open>IDLE\<close> on an empty queue, takes that
  request off the queue and leaves the rest in the order it had, without sorting again:
  the queue stays in the order of the current direction when the drop-off keeps the
  direction or empties the queue.
\<close>

theorem queue_sorted_by_last_reorder:
  "\<exists>e. run acts (new_Elevator i cap) = Some e \<and>
       sorted_for (last_reorder acts (new_Elevator i cap) IDLE) (requests e) \<and>
       (Elevator.direction e = last_reorder acts (new_Elevator i cap) IDLE \<longrightarrow>
          queue_matches_direction e) \<and>
       (\<forall>src dst e'. addRequest (new_Request src dst) e = Some (True, e') \<longrightarrow>
          queue_matches_direction e') \<and>
       (\<not> dropoff_next e \<longrightarrow>
          requests (resume e) = requests e \<and>
          Elevator.direction (resume e) = Elevator.direction e) \<and>
       (dropoff_next e \<longrightarrow>
          requests (resume e) = tl (requests e) \<and>
          Elevator.direction (resume e) =
            (if requests e = [] then IDLE else Request.direction (hd (requests e)))) \<and>
       (queue_matches_direction e \<and>
        (Elevator.direction (resume e) = Elevator.direction e \<or> requests (resume e) = []) \<longrightarrow>
          queue_matches_direction (resume e))"
proof -
  have "sorted_for IDLE (requests (new_Elevator i cap))" by (simp add: sorted_for_def)
  from run_last_reorder [OF settled_new this, of acts]
  obtain e where e: "run acts (new_Elevator i cap) = Some e" "settled e"
    "sorted_for (last_reorder acts (new_Elevator i cap) IDLE) (requests e)" by blast
  have "queue_matches_direction e'"
    if "addRequest (new_Request src dst) e = Some (True, e')" for src dst e'
  proof -
    have "Request.direction (new_Request src dst) \<noteq> IDLE" by (simp add: new_Request_def)
    from settled_addRequest [OF e(2) this] that show ?thesis by auto
  qed
  moreover from e(3) have "Elevator.direction e = last_reorder acts (new_Elevator i cap) IDLE \<longrightarrow>
          queue_matches_direction e"
    by (simp add: queue_matches_sorted_for)
  ultimately show ?thesis
    using e(1,3) resume_not_dropoff [of e] resume_dropoff [of e] resume_keeps_order [of e]
    by blast
qed

theorem queue_sorted_by_last_reorder_witness:
  "run [Submit 0 5, Submit 7 0] (new_Elevator 1 5) =
     Some (first_trip_started\<lparr>requests := [new_Request 7 0]\<rparr>) \<and>
   last_reorder [Submit 0 5, Submit 7 0] (new_Elevator 1 5) IDLE = UP \<and>
   sorted_for UP [new_Request 7 0] \<and>
   addRequest (new_Request 3 10) (first_trip_started\<lparr>requests := [new_Request 7 0]\<rparr>) =
     Some (True, first_trip_started\<lparr>requests := [new_Request 7 0, new_Request 3 10]\<rparr>) \<and>
   queue_matches_direction
     (first_trip_started\<lparr>requests := [new_Request 7 0, new_Request 3 10]\<rparr>) \<and>
   \<not> dropoff_next (first_trip_started\<lparr>requests := [new_Request 7 0]\<rparr>) \<and>
   requests (resume (first_trip_started\<lparr>requests := [new_Request 7 0]\<rparr>)) =
     [new_Request 7 0] \<and>
   run ([Submit 0 5, Submit 3 10] @ [Resume, Resume, Resume, Resume, Resume])
       (new_Elevator 1 5) =
     Some (first_trip_started
       \<lparr>currentFloor := 5, requests := [new_Request 3 10],
        console := [PickedUp 1 0, Moving 1 0 5, Arrived 1 1, Arrived 1 2, Arrived 1 3,
                    Arrived 1 4, Arrived 1 5],
        pending := DestArrived (new_Request 0 5)\<rparr>) \<and>
   dropoff_next (first_trip_started
       \<lparr>currentFloor := 5, requests := [new_Request 3 10],
        console := [PickedUp 1 0, Moving 1 0 5, Arrived 1 1, Arrived 1 2, Arrived 1 3,
                    Arrived 1 4, Arrived 1 5],
        pending := DestArrived (new_Request 0 5)\<rparr>) \<and>
   Elevator.direction (resume (first_trip_started
       \<lparr>currentFloor := 5, requests := [new_Request 3 10],
        console := [PickedUp 1 0, Moving 1 0 5, Arrived 1 1, Arrived 1 2, Arrived 1 3,
                    Arrived 1 4, Arrived 1 5],
        pending := DestArrived (new_Request 0 5)\<rparr>)) = UP \<and>
   queue_matches_direction (resume (first_trip_started
       \<lparr>currentFloor := 5, requests := [new_Request 3 10],
        console := [PickedUp 1 0, Moving 1 0 5, Arrived 1 1, Arrived 1 2, Arrived 1 3,
                    Arrived 1 4, Arrived 1 5],
        pending := DestArrived (new_Request 0 5)\<rparr>))"
proof -
  let ?E = "first_trip_started\<lparr>requests := [new_Request 7 0]\<rparr>"
  let ?E' = "first_trip_started\<lparr>requests := [new_Request 7 0, new_Request 3 10]\<rparr>"
  let ?D = "first_trip_started
       \<lparr>currentFloor := 5, requests := [new_Request 3 10],
        console := [PickedUp 1 0, Moving 1 0 5, Arrived 1 1, Arrived 1 2, Arrived 1 3,
                    Arrived 1 4, Arrived 1 5],
        pending := DestArrived (new_Request 0 5)\<rparr>"
  let ?acts = "[Submit 0 5, Submit 3 10] @ [Resume, Resume, Resume, Resume, Resume]"
  have r: "run [Submit 0 5, Submit 7 0] (new_Elevator 1 5) = Some ?E" by code_simp
  have o: "last_reorder [Submit 0 5, Submit 7 0] (new_Elevator 1 5) IDLE = UP" by code_simp
  have a: "addRequest (new_Request 3 10) ?E = Some (True, ?E')" by code_simp
  have n: "\<not> dropoff_next ?E" by code_simp
  from queue_sorted_by_last_reorder [of "[Submit 0 5, Submit 7 0]" 1 5]
  have T: "sorted_for UP (requests ?E) \<and>
       (\<forall>src dst e'. addRequest (new_Request src dst) ?E = Some (True, e') \<longrightarrow>
          queue_matches_direction e') \<and>
       (\<not> dropoff_next ?E \<longrightarrow> requests (resume ?E) = requests ?E \<and>
          Elevator.direction (resume ?E) = Elevator.direction ?E)"
    unfolding r o by simp
  from T have 0: "sorted_for UP [new_Request 7 0]" by simp
  from T a have 1: "queue_matches_direction ?E'" by blast
  from T n have 2: "requests (resume ?E) = [new_Request 7 0]" by simp
  have r2: "run ?acts (new_Elevator 1 5) = Some ?D" by code_simp
  have d: "dropoff_next ?D" by code_simp
  have m: "queue_matches_direction ?D" by code_simp
  from queue_sorted_by_last_reorder [of ?acts 1 5]
  have U: "(dropoff_next ?D \<longrightarrow>
          requests (resume ?D) = tl (requests ?D) \<and>
          Elevator.direction (resume ?D) =
            (if requests ?D = [] then IDLE else Request.direction (hd (requests ?D)))) \<and>
       (queue_matches_direction ?D \<and>
        (Elevator.direction (resume ?D) = Elevator.direction ?D \<or> requests (resume ?D) = []) \<longrightarrow>
          queue_matches_direction (resume ?D))"
    unfolding r2 by simp
  from U d have 3: "Elevator.direction (resume ?D) = UP" "requests (resume ?D) = []"
    by (simp_all add: new_Request_def)
  with U m have 4: "queue_matches_direction (resume ?D)" by blast
  from r o 0 a 1 n 2 r2 d 3(1) 4 show ?thesis by blast
qed

text \<open>
  The claim as stated fails on the requests of the demo itself. The first elevator
  accepts all five while it carries the first passenger upwards, and keeps the other
  four sorted ascending. After the five unit steps to floor 5 the drop-off sets the
  direction to \<open>DOWN\<close>, that of \<^verbatim>\<open>Request(7, 0)\<close>, and takes this request off the
  queue: the destinations 1, 2, 10 stay in ascending order under the direction
  \<open>DOWN\<close>.
\<close>

theorem queue_order_lost_at_dropoff:
  "run (demo_requests @ [Resume, Resume, Resume, Resume, Resume, Resume]) (new_Elevator 1 5) =
     Some \<lparr> ident = 1, capacityLimit = 5, currentFloor = 5, direction = DOWN,
            requests = [new_Request 2 1, new_Request 6 2, new_Request 3 10],
            passengers = 0, isMoving = True, mutex = False,
            console = [PickedUp 1 0, Moving 1 0 5, Arrived 1 1, Arrived 1 2, Arrived 1 3,
                       Arrived 1 4, Arrived 1 5, DroppedOff 1 5, Moving 1 5 7],
            pending = SourceTimer (new_Request 7 0) \<rparr> \<and>
   \<not> queue_matches_direction
     \<lparr> ident = 1, capacityLimit = 5, currentFloor = 5, direction = DOWN,
       requests = [new_Request 2 1, new_Request 6 2, new_Request 3 10],
       passengers = 0, isMoving = True, mutex = False,
       console = [PickedUp 1 0, Moving 1 0 5, Arrived 1 1, Arrived 1 2, Arrived 1 3,
                  Arrived 1 4, Arrived 1 5, DroppedOff 1 5, Moving 1 5 7],
       pending = SourceTimer (new_Request 7 0) \<rparr>"
  by code_simp

end
